theory Spec2Isabelle
  imports Main
begin

section \<open>Data model of the ASAP wrapper (utils/asap_helpers.py)\<close>

text \<open>
  The Python works on JSON dictionaries. Keys the code reads with a subscript are
  record fields; keys it reads with \<open>.get\<close> or removes with \<open>.pop(key, None)\<close> are
  optional fields. Timestamps and costs are Python integers.
\<close>

datatype error = KeyError | IndexError | ValueError | OSError int string

record step =
  arrival :: int

record route =
  steps :: "step list"

record summary =
  cost :: int
  unassigned :: "int option"
  computing_times :: "int option"

record solution =
  code :: "int option"
  error :: "string option"
  routes :: "route list"
  summary :: summary
  origin :: "string option"

record vehicle =
  vehicle_id :: nat
  time_window :: "(int \<times> int) option"

record problem_instance =
  vehicles :: "vehicle list"
  jobs :: "nat list"

section \<open>Completion time\<close>

text \<open>
  \<open>r["steps"][-1]["arrival"] for r in routes\<close>: the subscript \<open>[-1]\<close> raises IndexError
  on a route without steps, at the first such route in iteration order.
\<close>

fun last_arrivals :: "route list \<Rightarrow> error + int list" where
  "last_arrivals [] = Inr []"
| "last_arrivals (r # rs) =
     (if steps r = [] then Inl IndexError
      else (case last_arrivals rs of
              Inl e \<Rightarrow> Inl e
            | Inr as \<Rightarrow> Inr (arrival (last (steps r)) # as)))"

text \<open>\<open>max(...)\<close> and \<open>min(...)\<close> of an empty sequence raise ValueError.\<close>

fun py_max :: "int list \<Rightarrow> error + int" where
  "py_max [] = Inl ValueError"
| "py_max (a # as) = Inr (fold max as a)"

fun py_min :: "int list \<Rightarrow> error + int" where
  "py_min [] = Inl ValueError"
| "py_min (a # as) = Inr (fold min as a)"

text \<open>\<open>max(r["steps"][-1]["arrival"] for r in sol["routes"])\<close>\<close>

definition completion_time :: "solution \<Rightarrow> error + int" where
  "completion_time sol =
     (case last_arrivals (routes sol) of
        Inl e \<Rightarrow> Inl e
      | Inr as \<Rightarrow> py_max as)"

text \<open>The list comprehension over the pool stops at the first solution that raises.\<close>

fun completion_times :: "solution list \<Rightarrow> error + int list" where
  "completion_times [] = Inr []"
| "completion_times (sol # sols) =
     (case completion_time sol of
        Inl e \<Rightarrow> Inl e
      | Inr c \<Rightarrow> (case completion_times sols of
                    Inl e \<Rightarrow> Inl e
                  | Inr cs \<Rightarrow> Inr (c # cs)))"

section \<open>Removing marked members\<close>

text \<open>
  \<open>for idx in sorted(set(to_remove), reverse=True): solutions.pop(idx)\<close>.
  \<open>pop\<close> raises IndexError on an index outside the list.
\<close>

fun pop_all :: "nat list \<Rightarrow> 'a list \<Rightarrow> error + 'a list" where
  "pop_all [] xs = Inr xs"
| "pop_all (idx # idxs) xs =
     (if idx < length xs then pop_all idxs (take idx xs @ drop (Suc idx) xs)
      else Inl IndexError)"

definition sorted_set_reversed :: "nat list \<Rightarrow> nat list" where
  "sorted_set_reversed to_remove = rev (sort (remdups to_remove))"

section \<open>filter\_dominated\<close>

text \<open>
  The inner loop over \<open>j\<close> for a fixed \<open>i\<close>: \<open>continue\<close> on \<open>i == j\<close>; on strict
  dominance on both axes append \<open>i\<close> and \<open>break\<close>. All indices come from
  \<open>range(len(solutions))\<close>, so every \<open>!\<close> is in range.
\<close>

fun dominated_scan :: "int list \<Rightarrow> int list \<Rightarrow> nat \<Rightarrow> nat list \<Rightarrow> nat list \<Rightarrow> nat list" where
  "dominated_scan cts costs i [] to_remove = to_remove"
| "dominated_scan cts costs i (j # js) to_remove =
     (if i = j then dominated_scan cts costs i js to_remove
      else if cts ! j < cts ! i \<and> costs ! j < costs ! i then to_remove @ [i]
      else dominated_scan cts costs i js to_remove)"

fun dominated_marks :: "int list \<Rightarrow> int list \<Rightarrow> nat \<Rightarrow> nat list \<Rightarrow> nat list \<Rightarrow> nat list" where
  "dominated_marks cts costs n [] to_remove = to_remove"
| "dominated_marks cts costs n (i # is) to_remove =
     dominated_marks cts costs n is (dominated_scan cts costs i [0..<n] to_remove)"

definition filter_dominated :: "solution list \<Rightarrow> error + solution list" where
  "filter_dominated solutions =
     (case completion_times solutions of
        Inl e \<Rightarrow> Inl e
      | Inr cts \<Rightarrow>
          (let costs = map (\<lambda>sol. cost (summary sol)) solutions;
               n = length solutions;
               to_remove = dominated_marks cts costs n [0..<n] []
           in pop_all (sorted_set_reversed to_remove) solutions))"

section \<open>filter\_unique\<close>

text \<open>
  The inner loop over \<open>j\<close> in \<open>range(i + 1, len(solutions))\<close>: \<open>continue\<close> when \<open>j\<close> is
  already marked; on equal completion time and equal cost append \<open>j\<close> and \<open>break\<close>.
\<close>

fun unique_scan :: "int list \<Rightarrow> int list \<Rightarrow> nat \<Rightarrow> nat list \<Rightarrow> nat list \<Rightarrow> nat list" where
  "unique_scan cts costs i [] to_remove = to_remove"
| "unique_scan cts costs i (j # js) to_remove =
     (if j \<in> set to_remove then unique_scan cts costs i js to_remove
      else if cts ! i = cts ! j \<and> costs ! i = costs ! j then to_remove @ [j]
      else unique_scan cts costs i js to_remove)"

fun unique_marks :: "int list \<Rightarrow> int list \<Rightarrow> nat \<Rightarrow> nat list \<Rightarrow> nat list \<Rightarrow> nat list" where
  "unique_marks cts costs n [] to_remove = to_remove"
| "unique_marks cts costs n (i # is) to_remove =
     unique_marks cts costs n is (unique_scan cts costs i [i + 1..<n] to_remove)"

definition filter_unique :: "solution list \<Rightarrow> error + solution list" where
  "filter_unique solutions =
     (case completion_times solutions of
        Inl e \<Rightarrow> Inl e
      | Inr cts \<Rightarrow>
          (let costs = map (\<lambda>sol. cost (summary sol)) solutions;
               n = length solutions;
               to_remove = unique_marks cts costs n [0..<n] []
           in pop_all (sorted_set_reversed to_remove) solutions))"

section \<open>dichotomy\<close>

text \<open>\<open>v.get("time_window", [0, latest])[0]\<close>: a vehicle without a window counts as starting at 0.\<close>

definition tw_start :: "vehicle \<Rightarrow> int" where
  "tw_start v = (case time_window v of None \<Rightarrow> 0 | Some (tw0, tw1) \<Rightarrow> tw0)"

text \<open>\<open>min(..., default=0)\<close>\<close>

definition min_default :: "int list \<Rightarrow> int \<Rightarrow> int" where
  "min_default xs d = (case xs of [] \<Rightarrow> d | a # as \<Rightarrow> fold min as a)"

text \<open>
  The shrink/discard loop of \<open>dichotomy\<close> runs over \<open>reversed(range(len(vehicles)))\<close>, so
  the vehicles behind the head are handled first. \<open>.get("time_window", [0, latest])\<close>
  supplies a default pair for the comparison only: it does not store the key, and the
  assignment \<open>vehicle["time_window"][1] = candidate\<close> raises KeyError when the vehicle
  has no window.
\<close>

fun shrink_vehicles :: "int \<Rightarrow> vehicle list \<Rightarrow> error + vehicle list" where
  "shrink_vehicles candidate [] = Inr []"
| "shrink_vehicles candidate (v # vs) =
     (case shrink_vehicles candidate vs of
        Inl e \<Rightarrow> Inl e
      | Inr vs' \<Rightarrow>
          (case time_window v of
             None \<Rightarrow> (if candidate < 0 then Inr vs' else Inl KeyError)
           | Some (tw0, tw1) \<Rightarrow>
               (if candidate < tw0 then Inr vs'
                else Inr (v\<lparr>time_window := Some (tw0, candidate)\<rparr> # vs'))))"

text \<open>
  \<open>ct = max(...) if current_sol["routes"] else None\<close> is computed for the log line; it
  still raises IndexError on a route without steps.
\<close>

definition probe_completion :: "solution \<Rightarrow> error + int option" where
  "probe_completion current_sol =
     (if routes current_sol = [] then Inr None
      else (case completion_time current_sol of Inl e \<Rightarrow> Inl e | Inr ct \<Rightarrow> Inr (Some ct)))"

text \<open>
  The \<open>while True\<close> loop. The oracle \<open>solve\<close> (utils/vroom.py, an external program) is a
  parameter. Each probe starts from a fresh copy of \<open>init_input\<close>.
\<close>

function dichotomy_loop ::
  "(problem_instance \<Rightarrow> string list \<Rightarrow> solution) \<Rightarrow> string list \<Rightarrow> problem_instance
     \<Rightarrow> int \<Rightarrow> int \<Rightarrow> solution list \<Rightarrow> error + solution list" where
  "dichotomy_loop solve cl_args init_input earliest latest solutions =
     (let candidate = (earliest + latest) div 2 in
      if candidate = earliest \<or> candidate = latest then Inr solutions
      else (case shrink_vehicles candidate (vehicles init_input) of
              Inl e \<Rightarrow> Inl e
            | Inr vs \<Rightarrow>
                (let current_sol = solve (init_input\<lparr>vehicles := vs\<rparr>) cl_args in
                 case probe_completion current_sol of
                   Inl e \<Rightarrow> Inl e
                 | Inr ct \<Rightarrow>
                     if unassigned (summary current_sol) = Some 0
                     then dichotomy_loop solve cl_args init_input earliest candidate
                            (solutions @ [current_sol\<lparr>origin := Some ''dichotomy''\<rparr>])
                     else dichotomy_loop solve cl_args init_input candidate latest solutions)))"
  by pat_completeness auto
termination
  by (relation "measure (\<lambda>(solve, cl_args, init_input, earliest, latest, solutions).
                  nat \<bar>latest - earliest\<bar>)") auto

declare dichotomy_loop.simps [simp del]

definition dichotomy ::
  "(problem_instance \<Rightarrow> string list \<Rightarrow> solution) \<Rightarrow> problem_instance \<Rightarrow> string list
     \<Rightarrow> solution \<Rightarrow> error + solution list" where
  "dichotomy solve data cl_args first_solution =
     (let init_input = data;
          sol0 = first_solution\<lparr>origin := Some ''initial''\<rparr>;
          solutions = [sol0]
      in case completion_time sol0 of
           Inl e \<Rightarrow> Inl e
         | Inr init_ct \<Rightarrow>
        (case last_arrivals (routes first_solution) of
           Inl e \<Rightarrow> Inl e
         | Inr end_dates \<Rightarrow>
        (case py_min end_dates of
           Inl e \<Rightarrow> Inl e
         | Inr earliest \<Rightarrow>
        (case py_max end_dates of
           Inl e \<Rightarrow> Inl e
         | Inr latest \<Rightarrow>
            (let earliest_TW = min_default (map tw_start (vehicles init_input)) 0;
                 earliest' = (if length (routes first_solution) < length (vehicles init_input)
                              then earliest_TW else earliest)
             in dichotomy_loop solve cl_args init_input earliest' latest solutions)))))"

section \<open>backward\_search\<close>

text \<open>
  The sweep's loop over the vehicles reads \<open>vehicle["time_window"][0]\<close> with a plain
  subscript: KeyError on a vehicle without a window.
\<close>

fun sweep_vehicles :: "int \<Rightarrow> vehicle list \<Rightarrow> error + vehicle list" where
  "sweep_vehicles latest [] = Inr []"
| "sweep_vehicles latest (v # vs) =
     (case sweep_vehicles latest vs of
        Inl e \<Rightarrow> Inl e
      | Inr vs' \<Rightarrow>
          (case time_window v of
             None \<Rightarrow> Inl KeyError
           | Some (tw0, tw1) \<Rightarrow>
               (if latest < tw0 then Inr vs'
                else Inr (v\<lparr>time_window := Some (tw0, latest)\<rparr> # vs'))))"

text \<open>
  \<open>while unassigned == 0\<close>: the loop has no bound of its own, so the result is an
  option and \<open>None\<close> stands for a sweep that never returns. \<open>unassigned\<close> is \<open>None\<close> when
  the summary has no such key, which is not equal to 0.
\<close>

partial_function (option) backward_loop ::
  "(problem_instance \<Rightarrow> string list \<Rightarrow> solution) \<Rightarrow> string list \<Rightarrow> problem_instance
     \<Rightarrow> int \<Rightarrow> int option \<Rightarrow> solution list \<Rightarrow> (error + solution list) option" where
  "backward_loop solve cl_args current latest unassigned_now solutions =
     (if unassigned_now = Some 0 then
        (let sol = solve current cl_args in
         case completion_time sol of
           Inl e \<Rightarrow> Some (Inl e)
         | Inr ct \<Rightarrow>
             (case sweep_vehicles (latest - 1) (vehicles current) of
                Inl e \<Rightarrow> Some (Inl e)
              | Inr vs \<Rightarrow>
                  backward_loop solve cl_args (current\<lparr>vehicles := vs\<rparr>) (latest - 1)
                    (unassigned (summary sol))
                    (solutions @ [sol\<lparr>origin := Some ''backward_search''\<rparr>])))
      else Some (Inr solutions))"

definition backward_search ::
  "(problem_instance \<Rightarrow> string list \<Rightarrow> solution) \<Rightarrow> problem_instance \<Rightarrow> string list
     \<Rightarrow> solution \<Rightarrow> (error + solution list) option" where
  "backward_search solve data cl_args first_solution =
     (case completion_time first_solution of
        Inl e \<Rightarrow> Some (Inl e)
      | Inr latest \<Rightarrow>
          backward_loop solve cl_args data latest
            (Some (case unassigned (summary first_solution) of None \<Rightarrow> 0 | Some u \<Rightarrow> u)) [])"

section \<open>solve\_asap\<close>

record problem =
  instance_of :: problem_instance
  return_pareto_front :: bool
  pareto_front_more_solution :: bool
  cl_args_of :: "string list"
  pareto_plot_file :: string

datatype response = Front "solution list" | Best solution

text \<open>\<open>sol.pop("origin", None)\<close>\<close>

definition strip_origin :: "solution \<Rightarrow> solution" where
  "strip_origin sol = sol\<lparr>origin := None\<rparr>"

text \<open>\<open>best.pop("origin", None); best["summary"].pop("computing_times", None)\<close>\<close>

definition strip_best :: "solution \<Rightarrow> solution" where
  "strip_best best =
     (strip_origin best)\<lparr>summary := (summary best)\<lparr>computing_times := None\<rparr>\<rparr>"

text \<open>
  \<open>solutions.sort(key=...)\<close>: the keys are computed first, one per member and in order
  (a key that raises aborts the sort), then the members are sorted stably on them.
\<close>

definition sort_by_completion :: "solution list \<Rightarrow> error + solution list" where
  "sort_by_completion solutions =
     (case completion_times solutions of
        Inl e \<Rightarrow> Inl e
      | Inr cts \<Rightarrow> Inr (map snd (sort_key fst (zip cts solutions))))"

text \<open>Steps 4 and 6 of \<open>solve_asap\<close>: sort, filter, return. Step 5 hands the pool to
  matplotlib and does not change it.\<close>

definition reduce_and_return :: "problem \<Rightarrow> solution list \<Rightarrow> error + response" where
  "reduce_and_return problem pool =
     (case sort_by_completion pool of
        Inl e \<Rightarrow> Inl e
      | Inr sorted_pool \<Rightarrow>
     (case filter_dominated sorted_pool of
        Inl e \<Rightarrow> Inl e
      | Inr undominated \<Rightarrow>
     (case filter_unique undominated of
        Inl e \<Rightarrow> Inl e
      | Inr solutions \<Rightarrow>
          (if return_pareto_front problem then Inr (Front (map strip_origin solutions))
           else (case solutions of
                   [] \<Rightarrow> Inl IndexError
                 | best # rest \<Rightarrow> Inr (Best (strip_best best)))))))"

text \<open>
  \<open>init.get("code", 1)\<close> takes a result without a status for a failure, and the
  \<open>raise\<close> then subscripts \<open>init["code"]\<close> and \<open>init["error"]\<close>. The log call before
  the test subscripts \<open>init["summary"]\<close>, which the \<open>solution\<close> record always has.
  The result is an option because the backward sweep may never return.
\<close>

definition solve_asap ::
  "(problem_instance \<Rightarrow> string list \<Rightarrow> solution) \<Rightarrow> problem \<Rightarrow> (error + response) option" where
  "solve_asap solve problem =
     (let init = solve (instance_of problem) (cl_args_of problem) in
      if (case code init of None \<Rightarrow> 1 | Some c \<Rightarrow> c) \<noteq> 0 then
        (case code init of
           None \<Rightarrow> Some (Inl KeyError)
         | Some c \<Rightarrow> (case error init of
                        None \<Rightarrow> Some (Inl KeyError)
                      | Some msg \<Rightarrow> Some (Inl (OSError c msg))))
      else if (case unassigned (summary init) of None \<Rightarrow> 0 | Some u \<Rightarrow> u) \<noteq> 0 then
        Some (Inl (OSError 2 ''Initial solution has unassigned jobs''))
      else
        (case dichotomy solve (instance_of problem) (cl_args_of problem) init of
           Inl e \<Rightarrow> Some (Inl e)
         | Inr solutions \<Rightarrow>
             (if pareto_front_more_solution problem then
                (case backward_search solve (instance_of problem) (cl_args_of problem) init of
                   None \<Rightarrow> None
                 | Some (Inl e) \<Rightarrow> Some (Inl e)
                 | Some (Inr extra) \<Rightarrow> Some (reduce_and_return problem (solutions @ extra)))
              else Some (reduce_and_return problem solutions))))"

section \<open>Predicates used to state the properties\<close>

text \<open>
  The test of \<open>filter_dominated\<close>, line 40: \<open>a\<close> finishes strictly earlier and costs
  strictly less than \<open>b\<close>. The test of \<open>filter_unique\<close>, line 64: same completion
  time and same cost.
\<close>

definition strictly_dominates :: "solution \<Rightarrow> solution \<Rightarrow> bool" where
  "strictly_dominates a b =
     (case completion_time a of
        Inl e \<Rightarrow> False
      | Inr ca \<Rightarrow> (case completion_time b of
                     Inl e \<Rightarrow> False
                   | Inr cb \<Rightarrow> ca < cb \<and> cost (summary a) < cost (summary b)))"

definition same_point :: "solution \<Rightarrow> solution \<Rightarrow> bool" where
  "same_point a b =
     (case completion_time a of
        Inl e \<Rightarrow> False
      | Inr ca \<Rightarrow> (case completion_time b of
                     Inl e \<Rightarrow> False
                   | Inr cb \<Rightarrow> ca = cb \<and> cost (summary a) = cost (summary b)))"

section \<open>The uniqueness scan as the specification words it\<close>

text \<open>
  Written from the specification's sentence, to be compared with \<open>filter_unique\<close>: for
  each index \<open>i\<close> in order, among the indices \<open>j > i\<close> not already marked, the first
  one whose completion time and cost both equal those of \<open>i\<close> is marked, and nothing
  else is marked for that \<open>i\<close>; afterwards the marked members are gone and the others
  keep their order.
\<close>

definition claimed_unique_marks :: "int list \<Rightarrow> int list \<Rightarrow> nat \<Rightarrow> nat list" where
  "claimed_unique_marks cts costs n =
     fold (\<lambda>i marked.
             case find (\<lambda>j. j \<notin> set marked \<and> cts ! j = cts ! i \<and> costs ! j = costs ! i)
                       [Suc i..<n] of
               None \<Rightarrow> marked
             | Some j \<Rightarrow> marked @ [j])
          [0..<n] []"

definition claimed_filter_unique :: "solution list \<Rightarrow> error + solution list" where
  "claimed_filter_unique pool =
     (case completion_times pool of
        Inl e \<Rightarrow> Inl e
      | Inr cts \<Rightarrow>
          Inr (nths pool
                {k. k \<notin> set (claimed_unique_marks cts (map (\<lambda>sol. cost (summary sol)) pool)
                                (length pool))}))"

section \<open>Example data\<close>

text \<open>A solution with one route ending at time \<open>t\<close>, with cost \<open>c\<close> and \<open>u\<close> unassigned jobs.\<close>

definition example_solution :: "int \<Rightarrow> int \<Rightarrow> int \<Rightarrow> solution" where
  "example_solution t c u =
     \<lparr>code = Some 0, error = None,
      routes = [\<lparr>steps = [\<lparr>arrival = 0\<rparr>, \<lparr>arrival = t\<rparr>]\<rparr>],
      summary = \<lparr>cost = c, unassigned = Some u, computing_times = Some 1\<rparr>,
      origin = None\<rparr>"

text \<open>What the solver answers when it can route nothing: no route, one job unassigned.\<close>

definition unrouted_solution :: solution where
  "unrouted_solution =
     \<lparr>code = Some 0, error = None, routes = [],
      summary = \<lparr>cost = 0, unassigned = Some 1, computing_times = Some 1\<rparr>,
      origin = None\<rparr>"

definition example_vehicle :: "nat \<Rightarrow> int \<Rightarrow> int \<Rightarrow> vehicle" where
  "example_vehicle k tw0 tw1 = \<lparr>vehicle_id = k, time_window = Some (tw0, tw1)\<rparr>"

definition unbounded_vehicle :: "nat \<Rightarrow> vehicle" where
  "unbounded_vehicle k = \<lparr>vehicle_id = k, time_window = None\<rparr>"

definition example_instance :: "vehicle list \<Rightarrow> problem_instance" where
  "example_instance vs = \<lparr>vehicles = vs, jobs = [1]\<rparr>"

text \<open>
  A stub oracle with one job that takes until time \<open>need\<close>: the job is routed (cost
  \<open>c\<close>) when some vehicle has no window or a window that ends at \<open>need\<close> or later;
  otherwise the oracle answers \<open>otherwise\<close>.
\<close>

definition stub_oracle ::
  "int \<Rightarrow> int \<Rightarrow> solution \<Rightarrow> problem_instance \<Rightarrow> string list \<Rightarrow> solution" where
  "stub_oracle need c otherwise inst args =
     (if list_ex (\<lambda>v. case time_window v of None \<Rightarrow> True | Some (tw0, tw1) \<Rightarrow> need \<le> tw1)
                 (vehicles inst)
      then example_solution need c 0
      else otherwise)"

section \<open>Popping marked indices keeps exactly the unmarked members, in order\<close>

lemma nths_cong_below:
  "(\<And>k. k < length xs \<Longrightarrow> (k \<in> A) = (k \<in> B)) \<Longrightarrow> nths xs A = nths xs B"
  unfolding nths_def
  by (rule arg_cong [where f = "map fst"], rule filter_cong) (auto simp: set_zip)

lemma nths_pop:
  assumes "i < length xs" and "\<And>k. k \<in> S \<Longrightarrow> k < i"
  shows "nths (take i xs @ drop (Suc i) xs) (- S) = nths xs (- insert i S)"
proof -
  have split: "xs = take i xs @ (xs ! i # drop (Suc i) xs)"
    using assms(1) by (simp add: id_take_nth_drop)
  have len: "length (take i xs) = i" using assms(1) by simp
  have all: "{j. j + i \<in> - S} = UNIV" using assms(2) by fastforce
  have lhs: "nths (take i xs @ drop (Suc i) xs) (- S) = nths (take i xs) (- S) @ drop (Suc i) xs"
  proof -
    have "nths (drop (Suc i) xs) {j. j + length (take i xs) \<in> - S} = drop (Suc i) xs"
      unfolding len all by (simp add: nths_all)
    then show ?thesis by (simp only: nths_append)
  qed
  have tl: "{j. Suc j + i \<in> - insert i S} = UNIV" using assms(2) by fastforce
  have "nths xs (- insert i S)
        = nths (take i xs) (- insert i S) @ nths (xs ! i # drop (Suc i) xs) {j. j + i \<in> - insert i S}"
    by (subst split, subst nths_append) (simp only: len)
  also have "nths (xs ! i # drop (Suc i) xs) {j. j + i \<in> - insert i S} = drop (Suc i) xs"
  proof -
    have "nths (drop (Suc i) xs) {j. Suc j \<in> {j. j + i \<in> - insert i S}} = drop (Suc i) xs"
      by (rule nths_all) (use assms(2) in fastforce)
    then show ?thesis unfolding nths_Cons by simp
  qed
  also have "nths (take i xs) (- insert i S) = nths (take i xs) (- S)"
    by (rule nths_cong_below) (use len in auto)
  finally show ?thesis using lhs by simp
qed

lemma pop_all_rev_sorted:
  "sorted idxs \<Longrightarrow> distinct idxs \<Longrightarrow> \<forall>i\<in>set idxs. i < length xs
     \<Longrightarrow> pop_all (rev idxs) xs = Inr (nths xs (- set idxs))"
proof (induction idxs arbitrary: xs rule: rev_induct)
  case Nil
  then show ?case by (simp add: nths_all)
next
  case (snoc i idxs)
  have below: "\<And>k. k \<in> set idxs \<Longrightarrow> k < i"
    using snoc.prems(1,2) by (auto simp: sorted_append order_less_le)
  have i: "i < length xs" using snoc.prems(3) by simp
  let ?ys = "take i xs @ drop (Suc i) xs"
  have "\<forall>k\<in>set idxs. k < length ?ys" using below i by fastforce
  moreover have "sorted idxs" "distinct idxs" using snoc.prems by (auto simp: sorted_append)
  ultimately have "pop_all (rev idxs) ?ys = Inr (nths ?ys (- set idxs))"
    by (rule snoc.IH[rotated 2])
  then show ?case using i nths_pop[OF i below, of "set idxs"] by simp
qed

lemma pop_all_marks:
  "\<forall>i\<in>set to_remove. i < length xs
     \<Longrightarrow> pop_all (sorted_set_reversed to_remove) xs = Inr (nths xs (- set to_remove))"
  unfolding sorted_set_reversed_def
  using pop_all_rev_sorted[of "sort (remdups to_remove)" xs] by simp

section \<open>The dominance filter keeps exactly the undominated members\<close>

lemma completion_times_map:
  "completion_times sols = Inr cts \<longleftrightarrow> map completion_time sols = map Inr cts"
proof (induction sols arbitrary: cts)
  case Nil
  then show ?case by auto
next
  case (Cons s sols)
  show ?case
  proof (cases "completion_time s")
    case (Inl e)
    then show ?thesis by (cases cts) auto
  next
    case c: (Inr c)
    show ?thesis
    proof (cases "completion_times sols")
      case (Inl e)
      then have "map completion_time sols \<noteq> map Inr cs" for cs
        using Cons.IH[of cs] by simp
      then show ?thesis using c Inl by (cases cts) auto
    next
      case (Inr cs)
      then have "map completion_time sols = map Inr cs"
        using Cons.IH[of cs] by simp
      then show ?thesis using c Inr by (cases cts) auto
    qed
  qed
qed

lemma completion_times_nth:
  assumes "completion_times sols = Inr cts"
  shows "length cts = length sols" and "\<And>i. i < length sols \<Longrightarrow> completion_time (sols ! i) = Inr (cts ! i)"
proof -
  have m: "map completion_time sols = map Inr cts"
    using assms by (simp add: completion_times_map)
  show len: "length cts = length sols" using m by (metis length_map)
  fix i assume "i < length sols"
  then show "completion_time (sols ! i) = Inr (cts ! i)"
    using m len by (metis nth_map)
qed

lemma dominated_scan_eq:
  "dominated_scan cts costs i js tr =
     (if \<exists>j\<in>set js. i \<noteq> j \<and> cts ! j < cts ! i \<and> costs ! j < costs ! i then tr @ [i] else tr)"
  by (induction js) auto

lemma set_dominated_marks:
  "set (dominated_marks cts costs n is tr) =
     set tr \<union> {i \<in> set is. \<exists>j<n. cts ! j < cts ! i \<and> costs ! j < costs ! i}"
  by (induction "is" arbitrary: tr) (auto simp: dominated_scan_eq)

lemma filter_dominated_eq:
  assumes "completion_times pool = Inr cts"
  shows "filter_dominated pool = Inr (filter (\<lambda>s. \<forall>t\<in>set pool. \<not> strictly_dominates t s) pool)"
proof -
  let ?costs = "map (\<lambda>sol. cost (summary sol)) pool"
  let ?n = "length pool"
  let ?marks = "dominated_marks cts ?costs ?n [0..<?n] []"
  note ct = completion_times_nth[OF assms]
  have dom: "strictly_dominates (pool ! j) (pool ! i) \<longleftrightarrow> cts ! j < cts ! i \<and> ?costs ! j < ?costs ! i"
    if "i < ?n" "j < ?n" for i j
    using that by (simp add: strictly_dominates_def ct(2))
  have marks: "set ?marks = {i. i < ?n \<and> (\<exists>j<?n. cts ! j < cts ! i \<and> ?costs ! j < ?costs ! i)}"
    by (auto simp: set_dominated_marks)
  have "filter_dominated pool = pop_all (sorted_set_reversed ?marks) pool"
    using assms by (simp add: filter_dominated_def Let_def)
  also have "\<dots> = Inr (nths pool (- set ?marks))"
    by (rule pop_all_marks) (simp add: marks)
  also have "nths pool (- set ?marks) = nths pool {i. i < ?n \<and> (\<forall>t\<in>set pool. \<not> strictly_dominates t (pool ! i))}"
  proof (rule nths_cong_below)
    fix k assume k: "k < ?n"
    have "(\<exists>j<?n. cts ! j < cts ! k \<and> ?costs ! j < ?costs ! k) \<longleftrightarrow> (\<exists>t\<in>set pool. strictly_dominates t (pool ! k))"
      using dom[OF k] by (metis in_set_conv_nth)
    then show "(k \<in> - set ?marks) = (k \<in> {i. i < ?n \<and> (\<forall>t\<in>set pool. \<not> strictly_dominates t (pool ! i))})"
      using k unfolding marks by auto
  qed
  also have "\<dots> = filter (\<lambda>s. \<forall>t\<in>set pool. \<not> strictly_dominates t s) pool"
    by (simp add: filter_eq_nths)
  finally show ?thesis .
qed

section \<open>Stripping the origin tag\<close>

text \<open>
  Claim C9. Stripping the origin tag from a returned solution is idempotent, and it leaves
  the routes, the cost and the unassigned count as they were, both for the members of
  the full frontier (\<open>strip_origin\<close>) and for the single best solution (\<open>strip_best\<close>,
  which also drops the timing diagnostics); stripping the origin of an already returned
  best solution changes nothing.
\<close>

theorem strip_origin_idempotent_preserving:
  "strip_origin (strip_origin sol) = strip_origin sol
   \<and> routes (strip_origin sol) = routes sol
   \<and> cost (summary (strip_origin sol)) = cost (summary sol)
   \<and> unassigned (summary (strip_origin sol)) = unassigned (summary sol)
   \<and> summary (strip_origin sol) = summary sol
   \<and> code (strip_origin sol) = code sol
   \<and> error (strip_origin sol) = error sol
   \<and> origin (strip_origin sol) = None
   \<and> strip_best (strip_best sol) = strip_best sol
   \<and> strip_origin (strip_best sol) = strip_best sol
   \<and> routes (strip_best sol) = routes sol
   \<and> cost (summary (strip_best sol)) = cost (summary sol)
   \<and> unassigned (summary (strip_best sol)) = unassigned (summary sol)
   \<and> origin (strip_best sol) = None"
  by (simp add: strip_origin_def strip_best_def)

section \<open>The marks of the uniqueness scan\<close>

lemma unique_scan_find:
  "unique_scan cts costs i js tr =
     (case find (\<lambda>j. j \<notin> set tr \<and> cts ! i = cts ! j \<and> costs ! i = costs ! j) js of
        None \<Rightarrow> tr
      | Some j \<Rightarrow> tr @ [j])"
  by (induction js) auto

lemma unique_marks_fold:
  "unique_marks cts costs n is tr =
     fold (\<lambda>i marked. unique_scan cts costs i [i + 1..<n] marked) is tr"
  by (induction "is" arbitrary: tr) auto

lemma unique_marks_append:
  "unique_marks cts costs n (xs @ ys) tr =
     unique_marks cts costs n ys (unique_marks cts costs n xs tr)"
  by (induction xs arbitrary: tr) auto

lemma unique_scan_mono: "set tr \<subseteq> set (unique_scan cts costs i js tr)"
  by (induction js) auto

lemma unique_marks_mono: "set tr \<subseteq> set (unique_marks cts costs n is tr)"
proof (induction "is" arbitrary: tr)
  case Nil
  then show ?case by simp
next
  case (Cons i "is")
  show ?case
    using unique_scan_mono[of tr cts costs i "[i + 1..<n]"]
          Cons.IH[of "unique_scan cts costs i [i + 1..<n] tr"] by auto
qed

lemma unique_scan_only:
  "j \<in> set (unique_scan cts costs i js tr) \<Longrightarrow>
     j \<in> set tr \<or> (j \<in> set js \<and> cts ! i = cts ! j \<and> costs ! i = costs ! j)"
  by (induction js) (auto split: if_splits)

lemma unique_marks_only:
  "j \<in> set (unique_marks cts costs n is tr) \<Longrightarrow>
     j \<in> set tr \<or> (j < n \<and> (\<exists>i\<in>set is. i < j \<and> cts ! i = cts ! j \<and> costs ! i = costs ! j))"
proof (induction "is" arbitrary: tr)
  case Nil
  then show ?case by simp
next
  case (Cons i "is")
  have "j \<in> set (unique_marks cts costs n is (unique_scan cts costs i [i + 1..<n] tr))"
    using Cons.prems by simp
  from Cons.IH[OF this]
  consider "j \<in> set (unique_scan cts costs i [i + 1..<n] tr)"
    | "j < n \<and> (\<exists>i\<in>set is. i < j \<and> cts ! i = cts ! j \<and> costs ! i = costs ! j)"
    by blast
  then show ?case
  proof cases
    case 1
    from unique_scan_only[OF 1] show ?thesis by auto
  next
    case 2
    then show ?thesis by auto
  qed
qed

lemma unique_scan_length:
  "length (unique_scan cts costs i js tr) \<le> Suc (length tr)"
  by (induction js) auto

lemma unique_scan_hits:
  "cts ! i = cts ! j \<Longrightarrow> costs ! i = costs ! j
    \<Longrightarrow> \<forall>m\<in>set xs. \<not> (cts ! i = cts ! m \<and> costs ! i = costs ! m)
    \<Longrightarrow> j \<in> set (unique_scan cts costs i (xs @ j # ys) tr)"
proof (induction xs)
  case Nil
  then show ?case using unique_scan_mono[of tr cts costs i ys] by auto
next
  case (Cons m xs)
  then show ?case by auto
qed

lemma nearest_earlier:
  fixes P :: "nat \<Rightarrow> bool"
  assumes "a < b" "P a"
  shows "\<exists>a'<b. P a' \<and> (\<forall>m. a' < m \<and> m < b \<longrightarrow> \<not> P m)"
proof -
  let ?S = "{k. k < b \<and> P k}"
  have fin: "finite ?S" by simp
  have ne: "?S \<noteq> {}" using assms by auto
  have in_S: "Max ?S \<in> ?S" using Max_in[OF fin ne] .
  have "\<forall>m. Max ?S < m \<and> m < b \<longrightarrow> \<not> P m"
  proof (intro allI impI notI)
    fix m assume "Max ?S < m \<and> m < b" "P m"
    then have "m \<in> ?S" by simp
    then have "m \<le> Max ?S" using fin by (rule Max_ge[rotated])
    then show False using \<open>Max ?S < m \<and> m < b\<close> by simp
  qed
  then show ?thesis using in_S by blast
qed

lemma unique_marks_complete:
  assumes "a < b" "b < n" "cts ! a = cts ! b" "costs ! a = costs ! b"
  shows "b \<in> set (unique_marks cts costs n [0..<n] [])"
proof -
  obtain a' where a': "a' < b" "cts ! a' = cts ! b \<and> costs ! a' = costs ! b"
    and gap: "\<forall>m. a' < m \<and> m < b \<longrightarrow> \<not> (cts ! m = cts ! b \<and> costs ! m = costs ! b)"
    using nearest_earlier[of a b "\<lambda>k. cts ! k = cts ! b \<and> costs ! k = costs ! b"] assms by blast
  have outer: "[0..<n] = [0..<a'] @ a' # [Suc a'..<n]"
    using a'(1) assms(2) by (metis less_trans upt_conv_Cons upt_add_eq_append le0 nat_le_iff_add less_imp_le_nat plus_nat.add_0 le_add_diff_inverse)
  have inner: "[a' + 1..<n] = [Suc a'..<b] @ b # [Suc b..<n]"
    using a'(1) assms(2)
    by (metis Suc_eq_plus1 Suc_leI less_imp_le_nat upt_conv_Cons le_add_diff_inverse upt_add_eq_append)
  let ?tr = "unique_marks cts costs n [0..<a'] []"
  have none: "\<forall>m\<in>set [Suc a'..<b]. \<not> (cts ! a' = cts ! m \<and> costs ! a' = costs ! m)"
  proof
    fix m assume "m \<in> set [Suc a'..<b]"
    then have "a' < m \<and> m < b" by auto
    then have "\<not> (cts ! m = cts ! b \<and> costs ! m = costs ! b)" using gap by blast
    then show "\<not> (cts ! a' = cts ! m \<and> costs ! a' = costs ! m)" using a'(2) by auto
  qed
  have "b \<in> set (unique_scan cts costs a' ([Suc a'..<b] @ b # [Suc b..<n]) ?tr)"
    using a'(2) none by (intro unique_scan_hits) auto
  then have "b \<in> set (unique_scan cts costs a' [a' + 1..<n] ?tr)"
    using inner by simp
  then have "b \<in> set (unique_marks cts costs n [Suc a'..<n] (unique_scan cts costs a' [a' + 1..<n] ?tr))"
    using unique_marks_mono by blast
  then show ?thesis
    by (subst outer) (simp add: unique_marks_append)
qed

section \<open>The uniqueness filter keeps the unmarked members, in order\<close>

lemma completion_times_nths:
  assumes "completion_times pool = Inr cts"
  shows "completion_times (nths pool A) = Inr (nths cts A)"
proof -
  have "map completion_time (nths pool A) = map Inr (nths cts A)"
    using assms by (simp add: completion_times_map flip: nths_map)
  then show ?thesis by (simp add: completion_times_map)
qed

lemma filter_unique_nths:
  assumes "completion_times pool = Inr cts"
  shows "filter_unique pool =
           Inr (nths pool (- set (unique_marks cts (map (\<lambda>sol. cost (summary sol)) pool)
                                     (length pool) [0..<length pool] [])))"
proof -
  let ?marks = "unique_marks cts (map (\<lambda>sol. cost (summary sol)) pool) (length pool) [0..<length pool] []"
  have "\<forall>i\<in>set ?marks. i < length pool"
    using unique_marks_only[of _ cts _ "length pool" "[0..<length pool]" "[]"] by auto
  then have "pop_all (sorted_set_reversed ?marks) pool = Inr (nths pool (- set ?marks))"
    by (rule pop_all_marks)
  then show ?thesis using assms by (simp add: filter_unique_def Let_def)
qed

lemma claimed_unique_marks_eq:
  "claimed_unique_marks cts costs n = unique_marks cts costs n [0..<n] []"
proof -
  have flip: "(\<lambda>j. j \<notin> set marked \<and> cts ! j = cts ! i \<and> costs ! j = costs ! i)
            = (\<lambda>j. j \<notin> set marked \<and> cts ! i = cts ! j \<and> costs ! i = costs ! j)" for marked i
    by (intro ext) auto
  show ?thesis
    unfolding claimed_unique_marks_def unique_marks_fold unique_scan_find flip by simp
qed

lemma sorted_wrt_nths_index:
  assumes "\<And>a b. a < b \<Longrightarrow> b < length xs \<Longrightarrow> a \<in> A \<Longrightarrow> b \<in> A \<Longrightarrow> Q (xs ! a) (xs ! b)"
  shows "sorted_wrt Q (nths xs A)"
proof -
  let ?W = "zip xs [0..<length xs]"
  let ?P = "\<lambda>p q. snd p \<in> A \<and> snd q \<in> A \<longrightarrow> Q (fst p) (fst q)"
  have "sorted_wrt ?P ?W"
    using assms by (auto simp: sorted_wrt_iff_nth_less)
  then have "sorted_wrt ?P (filter (\<lambda>p. snd p \<in> A) ?W)"
    by (rule sorted_wrt_filter)
  then have "sorted_wrt (\<lambda>p q. Q (fst p) (fst q)) (filter (\<lambda>p. snd p \<in> A) ?W)"
    by (rule sorted_wrt_mono_rel[rotated]) auto
  then show ?thesis
    by (simp add: nths_def sorted_wrt_map)
qed

lemma same_point_nth:
  assumes "completion_times pool = Inr cts" "i < length pool" "j < length pool"
  shows "same_point (pool ! i) (pool ! j) \<longleftrightarrow>
           cts ! i = cts ! j \<and> map (\<lambda>sol. cost (summary sol)) pool ! i = map (\<lambda>sol. cost (summary sol)) pool ! j"
  using assms completion_times_nth(2)[OF assms(1)] by (simp add: same_point_def)

lemma same_point_sym: "same_point a b \<Longrightarrow> same_point b a"
  by (auto simp: same_point_def split: sum.splits)

lemma filter_unique_distinct:
  assumes "completion_times pool = Inr cts" "filter_unique pool = Inr fr"
  shows "sorted_wrt (\<lambda>a b. \<not> same_point a b) fr"
proof -
  let ?costs = "map (\<lambda>sol. cost (summary sol)) pool"
  let ?marks = "unique_marks cts ?costs (length pool) [0..<length pool] []"
  have fr: "fr = nths pool (- set ?marks)"
    using assms by (simp add: filter_unique_nths)
  show ?thesis unfolding fr
  proof (rule sorted_wrt_nths_index)
    fix a b assume ab: "a < b" "b < length pool" "a \<in> - set ?marks" "b \<in> - set ?marks"
    show "\<not> same_point (pool ! a) (pool ! b)"
    proof
      assume "same_point (pool ! a) (pool ! b)"
      then have "cts ! a = cts ! b \<and> ?costs ! a = ?costs ! b"
        using same_point_nth[OF assms(1), of a b] ab by simp
      then have "b \<in> set ?marks"
        using unique_marks_complete[of a b "length pool" cts ?costs] ab by blast
      then show False using ab(4) by simp
    qed
  qed
qed

section \<open>Claims about the frontier filters\<close>

text \<open>
  Claim C3. On any pool, \<open>filter_unique\<close> does what the scan of the specification
  says: for each index in order, the first later index that is not yet marked and has the
  same completion time and the same cost is marked, at most one per outer index (the
  list of marks grows by at most one element per scan), and the result is the pool
  without its marked members, the others in their order. When a completion time cannot
  be computed both sides raise the same error.
\<close>

theorem filter_unique_refines:
  "filter_unique pool = claimed_filter_unique pool
   \<and> length (unique_scan cts costs i js to_remove) \<le> Suc (length to_remove)"
proof
  show "filter_unique pool = claimed_filter_unique pool"
  proof (cases "completion_times pool")
    case (Inl e)
    then show ?thesis by (simp add: filter_unique_def claimed_filter_unique_def)
  next
    case (Inr cts)
    have "{k. k \<notin> set xs} = - set xs" for xs :: "nat list" by auto
    then show ?thesis
      using Inr by (simp add: filter_unique_nths claimed_filter_unique_def claimed_unique_marks_eq)
  qed
  show "length (unique_scan cts costs i js to_remove) \<le> Suc (length to_remove)"
    by (rule unique_scan_length)
qed

lemma filter_unique_total:
  assumes "completion_times pool = Inr cts"
  shows "\<exists>fr. filter_unique pool = Inr fr \<and> set fr \<subseteq> set pool"
  using filter_unique_nths[OF assms] by (auto dest: in_set_nthsD)

text \<open>
  Claim C10. One call of \<open>filter_unique\<close> removes every duplicate, however many members
  share a point: on every pool whose completion times are defined the filter returns,
  no two distinct members of the result have the same completion time and the same
  cost, and every member of the pool is still represented by a member with the same
  point.
\<close>

theorem filter_unique_deduplicates:
  assumes "completion_times pool = Inr cts"
  shows "\<exists>fr. filter_unique pool = Inr fr
           \<and> (\<forall>i<length fr. \<forall>j<length fr. i \<noteq> j \<longrightarrow> \<not> same_point (fr ! i) (fr ! j))
           \<and> (\<forall>s\<in>set pool. \<exists>t\<in>set fr. same_point s t)"
proof -
  define costs where "costs = map (\<lambda>sol. cost (summary sol)) pool"
  define marks where "marks = unique_marks cts costs (length pool) [0..<length pool] []"
  define fr where "fr = nths pool (- set marks)"
  have fr: "filter_unique pool = Inr fr"
    unfolding fr_def marks_def costs_def by (rule filter_unique_nths[OF assms])
  have sw: "sorted_wrt (\<lambda>a b. \<not> same_point a b) fr"
    by (rule filter_unique_distinct[OF assms fr])
  have sp: "same_point (pool ! a) (pool ! b) \<longleftrightarrow> cts ! a = cts ! b \<and> costs ! a = costs ! b"
    if "a < length pool" "b < length pool" for a b
    unfolding costs_def by (rule same_point_nth[OF assms that])
  have dist: "\<not> same_point (fr ! i) (fr ! j)" if "i < length fr" "j < length fr" "i \<noteq> j" for i j
  proof (cases "i < j")
    case True
    then show ?thesis using sw that(2) unfolding sorted_wrt_iff_nth_less by blast
  next
    case False
    then have "j < i" using that(3) by simp
    then have "\<not> same_point (fr ! j) (fr ! i)"
      using sw that(1) unfolding sorted_wrt_iff_nth_less by blast
    then show ?thesis using same_point_sym by blast
  qed
  have repr: "\<exists>t\<in>set fr. same_point s t" if s_in: "s \<in> set pool" for s
  proof -
    obtain j where j: "j < length pool" "s = pool ! j"
      using s_in unfolding in_set_conv_nth by blast
    define K where "K = (\<lambda>k. k < length pool \<and> cts ! k = cts ! j \<and> costs ! k = costs ! j)"
    define i where "i = (LEAST k. K k)"
    have Kj: "K j" unfolding K_def using j(1) by simp
    have Ki: "K i" unfolding i_def using Kj by (rule LeastI)
    have least: "i \<le> k" if "K k" for k unfolding i_def using that by (rule Least_le)
    have i_len: "i < length pool" and i_ct: "cts ! i = cts ! j" and i_cost: "costs ! i = costs ! j"
      using Ki unfolding K_def by blast+
    have unmarked: "i \<notin> set marks"
    proof
      assume "i \<in> set marks"
      then have "i \<in> set [] \<or> (i < length pool \<and>
                  (\<exists>k\<in>set [0..<length pool]. k < i \<and> cts ! k = cts ! i \<and> costs ! k = costs ! i))"
        unfolding marks_def by (rule unique_marks_only)
      then obtain k where k: "k < i" "cts ! k = cts ! i" "costs ! k = costs ! i" by auto
      have "K k" unfolding K_def using k i_len i_ct i_cost by simp
      then have "i \<le> k" by (rule least)
      then show False using k(1) by simp
    qed
    have "pool ! i \<in> set fr"
      unfolding fr_def set_nths using i_len unmarked by blast
    moreover have "same_point (pool ! j) (pool ! i)"
      using sp[OF j(1) i_len] i_ct i_cost by simp
    ultimately show ?thesis unfolding j(2) by (rule bexI[rotated])
  qed
  show ?thesis
  proof (intro exI[of _ fr] conjI allI impI ballI)
    show "filter_unique pool = Inr fr" by (rule fr)
  next
    fix i j assume "i < length fr" "j < length fr" "i \<noteq> j"
    then show "\<not> same_point (fr ! i) (fr ! j)" by (rule dist)
  next
    fix s assume "s \<in> set pool"
    then show "\<exists>t\<in>set fr. same_point s t" by (rule repr)
  qed
qed

theorem filter_unique_deduplicates_witness:
  "completion_times [example_solution 5 3 0, example_solution 5 3 0, example_solution 5 3 0]
     = Inr [5, 5, 5]
   \<and> (\<exists>fr. filter_unique [example_solution 5 3 0, example_solution 5 3 0, example_solution 5 3 0] = Inr fr
           \<and> (\<forall>i<length fr. \<forall>j<length fr. i \<noteq> j \<longrightarrow> \<not> same_point (fr ! i) (fr ! j))
           \<and> (\<forall>s\<in>set [example_solution 5 3 0, example_solution 5 3 0, example_solution 5 3 0].
                 \<exists>t\<in>set fr. same_point s t))"
proof -
  have h: "completion_times [example_solution 5 3 0, example_solution 5 3 0, example_solution 5 3 0]
             = Inr [5, 5, 5]"
    by (simp add: completion_time_def example_solution_def)
  show ?thesis by (rule conjI[OF h filter_unique_deduplicates[OF h]])
qed

text \<open>
  Claim C1. After dominance filtering followed by uniqueness filtering no member of the
  frontier is strictly dominated (earlier and cheaper) by another member; and dominance
  filtering keeps exactly the members that no member of the pool beats on both axes, so
  a member beaten on one axis only, or tied on an axis, survives it.
\<close>

theorem frontier_reduction_undominated:
  assumes "completion_times pool = Inr cts"
  shows "\<exists>und fr. filter_dominated pool = Inr und \<and> filter_unique und = Inr fr
           \<and> (\<forall>i<length fr. \<forall>j<length fr. i \<noteq> j \<longrightarrow> \<not> strictly_dominates (fr ! j) (fr ! i))
           \<and> und = filter (\<lambda>s. \<forall>t\<in>set pool. \<not> strictly_dominates t s) pool"
proof -
  let ?und = "filter (\<lambda>s. \<forall>t\<in>set pool. \<not> strictly_dominates t s) pool"
  have und: "filter_dominated pool = Inr ?und" by (rule filter_dominated_eq[OF assms])
  have "\<exists>cts'. completion_times ?und = Inr cts'"
    using completion_times_nths[OF assms] by (simp add: filter_eq_nths)
  then obtain cts' where "completion_times ?und = Inr cts'" by blast
  from filter_unique_total[OF this]
  obtain fr where fr: "filter_unique ?und = Inr fr" "set fr \<subseteq> set ?und" by blast
  have "\<not> strictly_dominates (fr ! j) (fr ! i)" if "i < length fr" "j < length fr" for i j
  proof -
    have "fr ! i \<in> set fr" "fr ! j \<in> set fr" using that by simp_all
    then have "fr ! i \<in> set ?und" "fr ! j \<in> set ?und" using fr(2) by blast+
    then have "\<forall>t\<in>set pool. \<not> strictly_dominates t (fr ! i)" "fr ! j \<in> set pool" by simp_all
    then show ?thesis by blast
  qed
  then show ?thesis using und fr(1) by blast
qed

theorem frontier_reduction_undominated_witness:
  "completion_times [example_solution 5 9 0, example_solution 7 10 0, example_solution 8 3 0]
     = Inr [5, 7, 8]
   \<and> (\<exists>und fr. filter_dominated [example_solution 5 9 0, example_solution 7 10 0, example_solution 8 3 0] = Inr und
         \<and> filter_unique und = Inr fr
         \<and> (\<forall>i<length fr. \<forall>j<length fr. i \<noteq> j \<longrightarrow> \<not> strictly_dominates (fr ! j) (fr ! i))
         \<and> und = filter (\<lambda>s. \<forall>t\<in>set [example_solution 5 9 0, example_solution 7 10 0, example_solution 8 3 0].
                              \<not> strictly_dominates t s)
                    [example_solution 5 9 0, example_solution 7 10 0, example_solution 8 3 0])"
proof -
  have h: "completion_times [example_solution 5 9 0, example_solution 7 10 0, example_solution 8 3 0]
             = Inr [5, 7, 8]"
    by (simp add: completion_time_def example_solution_def)
  show ?thesis by (rule conjI[OF h frontier_reduction_undominated[OF h]])
qed

section \<open>The horizon clamping\<close>

lemma shrink_vehicles_error: "shrink_vehicles c vs = Inl e \<Longrightarrow> e = KeyError"
  by (induction vs arbitrary: e) (auto split: sum.splits option.splits if_splits)

lemma sweep_vehicles_error: "sweep_vehicles c vs = Inl e \<Longrightarrow> e = KeyError"
  by (induction vs arbitrary: e) (auto split: sum.splits option.splits if_splits)

lemma shrink_vehicles_unbounded:
  "v \<in> set vs \<Longrightarrow> time_window v = None \<Longrightarrow> 0 \<le> c \<Longrightarrow> shrink_vehicles c vs = Inl KeyError"
proof (induction vs)
  case Nil
  then show ?case by simp
next
  case (Cons w vs)
  show ?case
  proof (cases "shrink_vehicles c vs")
    case (Inl e)
    then show ?thesis using shrink_vehicles_error[OF Inl] by simp
  next
    case (Inr vs')
    then have "v \<notin> set vs" using Cons.IH Cons.prems by auto
    then have "w = v" using Cons.prems(1) by simp
    then show ?thesis using Inr Cons.prems by simp
  qed
qed

lemma sweep_vehicles_unbounded:
  "v \<in> set vs \<Longrightarrow> time_window v = None \<Longrightarrow> sweep_vehicles c vs = Inl KeyError"
proof (induction vs)
  case Nil
  then show ?case by simp
next
  case (Cons w vs)
  show ?case
  proof (cases "sweep_vehicles c vs")
    case (Inl e)
    then show ?thesis using sweep_vehicles_error[OF Inl] by simp
  next
    case (Inr vs')
    then have "v \<notin> set vs" using Cons.IH Cons.prems by auto
    then have "w = v" using Cons.prems(1) by simp
    then show ?thesis using Inr Cons.prems by simp
  qed
qed

lemma shrink_vehicles_windows:
  "\<forall>v\<in>set vs. time_window v \<noteq> None \<Longrightarrow>
     shrink_vehicles c vs =
       Inr (map (\<lambda>v. v\<lparr>time_window := Some (tw_start v, c)\<rparr>) (filter (\<lambda>v. \<not> c < tw_start v) vs))"
  by (induction vs) (auto simp: tw_start_def split: option.splits)

lemma sweep_vehicles_windows:
  "\<forall>v\<in>set vs. time_window v \<noteq> None \<Longrightarrow>
     sweep_vehicles c vs =
       Inr (map (\<lambda>v. v\<lparr>time_window := Some (tw_start v, c)\<rparr>) (filter (\<lambda>v. \<not> c < tw_start v) vs))"
  by (induction vs) (auto simp: tw_start_def split: option.splits)

lemma fold_min_le: "fold min xs (a::int) \<le> a \<and> (\<forall>x\<in>set xs. fold min xs a \<le> x)"
proof (induction xs arbitrary: a)
  case Nil
  then show ?case by simp
next
  case (Cons x xs)
  have "fold min xs (min x a) \<le> min x a" using Cons.IH by blast
  then show ?case using Cons.IH[of "min x a"] by auto
qed

lemma fold_max_ge: "(a::int) \<le> fold max xs a"
proof (induction xs arbitrary: a)
  case Nil
  then show ?case by simp
next
  case (Cons x xs)
  have "max x a \<le> fold max xs (max x a)" using Cons.IH by blast
  then show ?case by simp
qed

lemma shrink_vehicles_below_all:
  assumes "c < min_default (map tw_start vs) 0"
  shows "shrink_vehicles c vs = Inr []"
proof -
  have "\<forall>v\<in>set vs. c < tw_start v"
  proof (cases vs)
    case Nil
    then show ?thesis by simp
  next
    case (Cons w ws)
    have "fold min (map tw_start ws) (tw_start w) \<le> tw_start v" if "v \<in> set vs" for v
      using that fold_min_le[of "map tw_start ws" "tw_start w"] Cons by auto
    then show ?thesis using assms Cons by (fastforce simp: min_default_def)
  qed
  then show ?thesis
    by (induction vs) (auto simp: tw_start_def split: option.splits)
qed

section \<open>The bisection loop\<close>

lemma candidate_between:
  fixes earliest latest :: int
  assumes "candidate = (earliest + latest) div 2" "candidate \<noteq> earliest" "candidate \<noteq> latest"
  shows "\<bar>latest - candidate\<bar> < \<bar>latest - earliest\<bar>" "\<bar>candidate - earliest\<bar> < \<bar>latest - earliest\<bar>"
    "candidate < max earliest latest"
  using assms by linarith+

lemma candidate_exit:
  fixes earliest latest :: int
  shows "((earliest + latest) div 2 = earliest \<or> (earliest + latest) div 2 = latest)
           \<longleftrightarrow> \<bar>latest - earliest\<bar> \<le> 1"
  by linarith

lemma dichotomy_loop_records:
  "dichotomy_loop solve cl_args init_input earliest latest solutions = Inr result \<Longrightarrow>
     \<exists>recorded. result = solutions @ recorded
       \<and> (\<forall>s\<in>set recorded. origin s = Some ''dichotomy'' \<and> unassigned (summary s) = Some 0)"
proof (induction solve cl_args init_input earliest latest solutions rule: dichotomy_loop.induct)
  case (1 solve cl_args init_input earliest latest solutions)
  let ?c = "(earliest + latest) div 2"
  show ?case
  proof (cases "?c = earliest \<or> ?c = latest")
    case True
    then show ?thesis using "1.prems" by (simp add: dichotomy_loop.simps[of solve cl_args init_input earliest latest])
  next
    case False
    then obtain vs where vs: "shrink_vehicles ?c (vehicles init_input) = Inr vs"
      using "1.prems" by (cases "shrink_vehicles ?c (vehicles init_input)")
        (simp_all add: dichotomy_loop.simps[of solve cl_args init_input earliest latest])
    let ?sol = "solve (init_input\<lparr>vehicles := vs\<rparr>) cl_args"
    obtain ct where ct: "probe_completion ?sol = Inr ct"
      using "1.prems" False vs by (cases "probe_completion ?sol")
        (simp_all add: dichotomy_loop.simps[of solve cl_args init_input earliest latest])
    show ?thesis
    proof (cases "unassigned (summary ?sol) = Some 0")
      case True
      have "dichotomy_loop solve cl_args init_input earliest ?c
              (solutions @ [?sol\<lparr>origin := Some ''dichotomy''\<rparr>]) = Inr result"
        using "1.prems" False vs ct True
        by (simp add: dichotomy_loop.simps[of solve cl_args init_input earliest latest])
      from "1.IH"(1)[OF refl False vs refl ct True this]
      obtain recorded where "result = (solutions @ [?sol\<lparr>origin := Some ''dichotomy''\<rparr>]) @ recorded"
        "\<forall>s\<in>set recorded. origin s = Some ''dichotomy'' \<and> unassigned (summary s) = Some 0"
        by blast
      then show ?thesis using True
        by (intro exI[of _ "?sol\<lparr>origin := Some ''dichotomy''\<rparr> # recorded"]) simp
    next
      case infeasible: False
      have "dichotomy_loop solve cl_args init_input ?c latest solutions = Inr result"
        using "1.prems" False vs ct infeasible
        by (simp add: dichotomy_loop.simps[of solve cl_args init_input earliest latest])
      from "1.IH"(2)[OF refl False vs refl ct infeasible this]
      show ?thesis .
    qed
  qed
qed

lemma dichotomy_loop_all_infeasible:
  assumes "\<And>c vs. c < bound \<Longrightarrow> shrink_vehicles c (vehicles init_input) = Inr vs \<Longrightarrow>
             unassigned (summary (solve (init_input\<lparr>vehicles := vs\<rparr>) cl_args)) \<noteq> Some 0"
    and "earliest \<le> bound" "latest \<le> bound"
    and "dichotomy_loop solve cl_args init_input earliest latest solutions = Inr result"
  shows "result = solutions"
  using assms
proof (induction solve cl_args init_input earliest latest solutions rule: dichotomy_loop.induct)
  case (1 solve cl_args init_input earliest latest solutions)
  let ?c = "(earliest + latest) div 2"
  show ?case
  proof (cases "?c = earliest \<or> ?c = latest")
    case True
    then show ?thesis using "1.prems"(4) by (simp add: dichotomy_loop.simps[of solve cl_args init_input earliest latest])
  next
    case False
    then obtain vs where vs: "shrink_vehicles ?c (vehicles init_input) = Inr vs"
      using "1.prems"(4) by (cases "shrink_vehicles ?c (vehicles init_input)")
        (simp_all add: dichotomy_loop.simps[of solve cl_args init_input earliest latest])
    let ?sol = "solve (init_input\<lparr>vehicles := vs\<rparr>) cl_args"
    obtain ct where ct: "probe_completion ?sol = Inr ct"
      using "1.prems"(4) False vs by (cases "probe_completion ?sol")
        (simp_all add: dichotomy_loop.simps[of solve cl_args init_input earliest latest])
    have below: "?c < bound" using False "1.prems"(2,3) by linarith
    have infeasible: "unassigned (summary ?sol) \<noteq> Some 0"
      using "1.prems"(1)[OF below vs] .
    have next_run: "dichotomy_loop solve cl_args init_input ?c latest solutions = Inr result"
      using "1.prems"(4) False vs ct infeasible
      by (simp add: dichotomy_loop.simps[of solve cl_args init_input earliest latest])
    have "?c \<le> bound" using below by simp
    from "1.IH"(2)[OF refl False vs refl ct infeasible "1.prems"(1) this "1.prems"(3) next_run]
    show ?thesis .
  qed
qed

lemmas example_defs = example_solution_def unrouted_solution_def example_vehicle_def
  unbounded_vehicle_def example_instance_def stub_oracle_def

section \<open>Claims about the dichotomic search\<close>

text \<open>
  Claim C4 does not hold of the code. With two vehicles that declare no time window and
  an initial solution that uses one of them, the first probe of the dichotomic search
  (candidate 5 between the bounds 0 and 10) raises KeyError in the clamping step, and so
  does the first clamping of the backward sweep: \<open>dichotomy\<close> reads the window with a
  default but then assigns into the missing key, \<open>backward_search\<close> subscripts it.
\<close>

theorem clamping_raises_without_window:
  "shrink_vehicles 5 [unbounded_vehicle 0, unbounded_vehicle 1] = Inl KeyError
   \<and> sweep_vehicles 9 [unbounded_vehicle 0, unbounded_vehicle 1] = Inl KeyError
   \<and> dichotomy (stub_oracle 10 4 unrouted_solution)
        (example_instance [unbounded_vehicle 0, unbounded_vehicle 1]) []
        (example_solution 10 4 0) = Inl KeyError
   \<and> backward_search (stub_oracle 10 4 unrouted_solution)
        (example_instance [unbounded_vehicle 0, unbounded_vehicle 1]) []
        (example_solution 10 4 0) = Some (Inl KeyError)"
proof (intro conjI)
  show "shrink_vehicles 5 [unbounded_vehicle 0, unbounded_vehicle 1] = Inl KeyError"
    by (simp add: example_defs)
  show "sweep_vehicles 9 [unbounded_vehicle 0, unbounded_vehicle 1] = Inl KeyError"
    by (simp add: example_defs)
  show "dichotomy (stub_oracle 10 4 unrouted_solution)
          (example_instance [unbounded_vehicle 0, unbounded_vehicle 1]) []
          (example_solution 10 4 0) = Inl KeyError"
    by (simp add: dichotomy_def completion_time_def min_default_def tw_start_def
          dichotomy_loop.simps example_defs)
  show "backward_search (stub_oracle 10 4 unrouted_solution)
          (example_instance [unbounded_vehicle 0, unbounded_vehicle 1]) []
          (example_solution 10 4 0) = Some (Inl KeyError)"
    by (simp add: backward_search_def completion_time_def backward_loop.simps example_defs)
qed

text \<open>
  Claim C6. One iteration of the bisection, with \<open>candidate = (earliest + latest) div 2\<close>:
  the loop stops with the solutions recorded so far exactly when the candidate equals a
  bound, which for integers is when the bounds are at most one apart; otherwise, when
  the clamping and the probe go through, a probe with zero unassigned jobs is recorded
  with origin \<open>dichotomy\<close> and \<open>latest\<close> becomes the candidate, and any other probe is
  not recorded and \<open>earliest\<close> becomes the candidate. Either way the distance between
  the bounds gets strictly smaller, which is why the loop always ends. Whatever the loop
  returns is the list it started from followed by feasible probes tagged \<open>dichotomy\<close>.
\<close>

theorem dichotomy_loop_iteration:
  assumes "candidate = (earliest + latest) div 2"
  shows "(candidate = earliest \<or> candidate = latest \<longrightarrow>
            dichotomy_loop solve cl_args init_input earliest latest solutions = Inr solutions)
       \<and> (candidate \<noteq> earliest \<and> candidate \<noteq> latest
            \<and> shrink_vehicles candidate (vehicles init_input) = Inr vs
            \<and> probe_completion (solve (init_input\<lparr>vehicles := vs\<rparr>) cl_args) = Inr ct \<longrightarrow>
            dichotomy_loop solve cl_args init_input earliest latest solutions =
              (if unassigned (summary (solve (init_input\<lparr>vehicles := vs\<rparr>) cl_args)) = Some 0
               then dichotomy_loop solve cl_args init_input earliest candidate
                      (solutions @ [(solve (init_input\<lparr>vehicles := vs\<rparr>) cl_args)
                                      \<lparr>origin := Some ''dichotomy''\<rparr>])
               else dichotomy_loop solve cl_args init_input candidate latest solutions)
            \<and> \<bar>latest - candidate\<bar> < \<bar>latest - earliest\<bar>
            \<and> \<bar>candidate - earliest\<bar> < \<bar>latest - earliest\<bar>)
       \<and> ((candidate = earliest \<or> candidate = latest) \<longleftrightarrow> \<bar>latest - earliest\<bar> \<le> 1)
       \<and> (\<forall>result. dichotomy_loop solve cl_args init_input earliest latest solutions = Inr result \<longrightarrow>
            (\<exists>recorded. result = solutions @ recorded
               \<and> (\<forall>s\<in>set recorded. origin s = Some ''dichotomy''
                                      \<and> unassigned (summary s) = Some 0)))"
proof (intro conjI impI allI)
  assume "candidate = earliest \<or> candidate = latest"
  then show "dichotomy_loop solve cl_args init_input earliest latest solutions = Inr solutions"
    using assms by (simp add: dichotomy_loop.simps[of solve cl_args init_input earliest latest])
next
  assume h: "candidate \<noteq> earliest \<and> candidate \<noteq> latest
            \<and> shrink_vehicles candidate (vehicles init_input) = Inr vs
            \<and> probe_completion (solve (init_input\<lparr>vehicles := vs\<rparr>) cl_args) = Inr ct"
  then show "dichotomy_loop solve cl_args init_input earliest latest solutions =
              (if unassigned (summary (solve (init_input\<lparr>vehicles := vs\<rparr>) cl_args)) = Some 0
               then dichotomy_loop solve cl_args init_input earliest candidate
                      (solutions @ [(solve (init_input\<lparr>vehicles := vs\<rparr>) cl_args)
                                      \<lparr>origin := Some ''dichotomy''\<rparr>])
               else dichotomy_loop solve cl_args init_input candidate latest solutions)"
    using assms by (simp add: dichotomy_loop.simps[of solve cl_args init_input earliest latest])
  show "\<bar>latest - candidate\<bar> < \<bar>latest - earliest\<bar>"
    using candidate_between(1)[OF assms] h by blast
  show "\<bar>candidate - earliest\<bar> < \<bar>latest - earliest\<bar>"
    using candidate_between(2)[OF assms] h by blast
next
  show "(candidate = earliest \<or> candidate = latest) = (\<bar>latest - earliest\<bar> \<le> 1)"
    unfolding assms by (rule candidate_exit)
next
  fix result
  assume "dichotomy_loop solve cl_args init_input earliest latest solutions = Inr result"
  then show "\<exists>recorded. result = solutions @ recorded
               \<and> (\<forall>s\<in>set recorded. origin s = Some ''dichotomy''
                                      \<and> unassigned (summary s) = Some 0)"
    by (rule dichotomy_loop_records)
qed

theorem dichotomy_loop_iteration_witness:
  "(7::int) = (5 + 10) div 2
   \<and> shrink_vehicles 7 (vehicles (example_instance [example_vehicle 0 0 100]))
       = Inr [example_vehicle 0 0 7]
   \<and> probe_completion (stub_oracle 7 4 unrouted_solution
        ((example_instance [example_vehicle 0 0 100])\<lparr>vehicles := [example_vehicle 0 0 7]\<rparr>) [])
       = Inr (Some 7)
   \<and> dichotomy_loop (stub_oracle 7 4 unrouted_solution) [] (example_instance [example_vehicle 0 0 100])
        5 10 [(example_solution 10 4 0)\<lparr>origin := Some ''initial''\<rparr>]
     = dichotomy_loop (stub_oracle 7 4 unrouted_solution) [] (example_instance [example_vehicle 0 0 100])
        5 7 [(example_solution 10 4 0)\<lparr>origin := Some ''initial''\<rparr>,
             (example_solution 7 4 0)\<lparr>origin := Some ''dichotomy''\<rparr>]"
proof -
  have h1: "(7::int) = (5 + 10) div 2" by simp
  have h2: "shrink_vehicles 7 (vehicles (example_instance [example_vehicle 0 0 100]))
              = Inr [example_vehicle 0 0 7]"
    by (simp add: example_defs)
  have h3: "probe_completion (stub_oracle 7 4 unrouted_solution
              ((example_instance [example_vehicle 0 0 100])\<lparr>vehicles := [example_vehicle 0 0 7]\<rparr>) [])
            = Inr (Some 7)"
    by (simp add: probe_completion_def completion_time_def example_defs)
  have h4: "stub_oracle 7 4 unrouted_solution
              ((example_instance [example_vehicle 0 0 100])\<lparr>vehicles := [example_vehicle 0 0 7]\<rparr>) []
            = example_solution 7 4 0"
    by (simp add: example_defs)
  have h5: "unassigned (summary (example_solution 7 4 0)) = Some 0"
    by (simp add: example_defs)
  note step = dichotomy_loop_iteration[OF h1,
      where solve = "stub_oracle 7 4 unrouted_solution" and cl_args = "[]"
        and init_input = "example_instance [example_vehicle 0 0 100]"
        and vs = "[example_vehicle 0 0 7]" and ct = "Some 7"
        and solutions = "[(example_solution 10 4 0)\<lparr>origin := Some ''initial''\<rparr>]"]
  from step h2 h3 have "dichotomy_loop (stub_oracle 7 4 unrouted_solution) []
        (example_instance [example_vehicle 0 0 100])
        5 10 [(example_solution 10 4 0)\<lparr>origin := Some ''initial''\<rparr>]
     = dichotomy_loop (stub_oracle 7 4 unrouted_solution) [] (example_instance [example_vehicle 0 0 100])
        5 7 [(example_solution 10 4 0)\<lparr>origin := Some ''initial''\<rparr>,
             (example_solution 7 4 0)\<lparr>origin := Some ''dichotomy''\<rparr>]"
    unfolding h4 using h5 by simp
  then show ?thesis using h1 h2 h3 by blast
qed

lemma completion_time_origin [simp]:
  "completion_time (sol\<lparr>origin := tag\<rparr>) = completion_time sol"
  by (simp add: completion_time_def)

text \<open>
  Claim C8. When the oracle leaves a job unassigned at every horizon strictly below the
  completion time of the unconstrained solution, a dichotomic search that returns
  returns exactly one solution, the initial one tagged \<open>initial\<close>.
\<close>

theorem dichotomy_only_initial:
  assumes "completion_time first_solution = Inr T"
    and "\<forall>c vs. c < T \<and> shrink_vehicles c (vehicles data) = Inr vs \<longrightarrow>
           unassigned (summary (solve (data\<lparr>vehicles := vs\<rparr>) cl_args)) \<noteq> Some 0"
    and "dichotomy solve data cl_args first_solution = Inr result"
  shows "result = [first_solution\<lparr>origin := Some ''initial''\<rparr>]"
proof -
  let ?sols = "[first_solution\<lparr>origin := Some ''initial''\<rparr>]"
  obtain end_dates where ed: "last_arrivals (routes first_solution) = Inr end_dates"
    and mx: "py_max end_dates = Inr T"
    using assms(1) by (auto simp: completion_time_def split: sum.splits)
  obtain d ds where dds: "end_dates = d # ds" and T: "T = fold max ds d"
    using mx by (cases end_dates) auto
  let ?emin = "fold min ds d"
  let ?etw = "min_default (map tw_start (vehicles data)) 0"
  let ?start = "if length (routes first_solution) < length (vehicles data) then ?etw else ?emin"
  have run: "dichotomy_loop solve cl_args data ?start T ?sols = Inr result"
    using assms(3) assms(1) ed dds T by (simp add: dichotomy_def Let_def)
  have e0: "?emin \<le> T"
    using fold_min_le[of ds d] fold_max_ge[of d ds] T by linarith
  have infeasible: "unassigned (summary (solve (data\<lparr>vehicles := vs\<rparr>) cl_args)) \<noteq> Some 0"
    if "c < T" "shrink_vehicles c (vehicles data) = Inr vs" for c vs
    using assms(2) that by blast
  show ?thesis
  proof (cases "?start \<le> T")
    case True
    show ?thesis
      by (rule dichotomy_loop_all_infeasible[OF infeasible True order_refl run])
  next
    case False
    then have idle: "?start = ?etw" and above: "T < ?etw"
      using e0 by (auto split: if_splits)
    have empty: "shrink_vehicles c (vehicles data) = Inr []" if "c < ?etw" for c
      using that by (rule shrink_vehicles_below_all)
    have "shrink_vehicles (T - 1) (vehicles data) = Inr []"
      using above by (intro empty) simp
    then have none: "unassigned (summary (solve (data\<lparr>vehicles := []\<rparr>) cl_args)) \<noteq> Some 0"
      using infeasible[of "T - 1" "[]"] by simp
    have all: "unassigned (summary (solve (data\<lparr>vehicles := vs\<rparr>) cl_args)) \<noteq> Some 0"
      if "c < ?etw" "shrink_vehicles c (vehicles data) = Inr vs" for c vs
      using empty[OF that(1)] that(2) none by simp
    have run': "dichotomy_loop solve cl_args data ?etw T ?sols = Inr result"
      using run idle by simp
    have le: "T \<le> ?etw" using above by (rule less_imp_le)
    show ?thesis
      by (rule dichotomy_loop_all_infeasible[OF all order_refl le run'])
  qed
qed

lemma stub_oracle_infeasible_below:
  assumes "c < 10"
    and "shrink_vehicles c (vehicles (example_instance [example_vehicle 0 0 100, example_vehicle 1 0 100]))
           = Inr vs"
  shows "unassigned (summary (stub_oracle 10 4 unrouted_solution
           ((example_instance [example_vehicle 0 0 100, example_vehicle 1 0 100])\<lparr>vehicles := vs\<rparr>) []))
         \<noteq> Some 0"
  using assms by (auto simp: example_defs split: if_splits)

theorem dichotomy_only_initial_witness:
  "completion_time (example_solution 10 4 0) = Inr 10
   \<and> dichotomy (stub_oracle 10 4 unrouted_solution)
        (example_instance [example_vehicle 0 0 100, example_vehicle 1 0 100]) []
        (example_solution 10 4 0)
     = Inr [(example_solution 10 4 0)\<lparr>origin := Some ''initial''\<rparr>]"
proof -
  have h1: "completion_time (example_solution 10 4 0) = Inr 10"
    by (simp add: completion_time_def example_defs)
  have h2: "\<forall>c vs. c < 10 \<and> shrink_vehicles c (vehicles (example_instance
                  [example_vehicle 0 0 100, example_vehicle 1 0 100])) = Inr vs \<longrightarrow>
         unassigned (summary (stub_oracle 10 4 unrouted_solution
           ((example_instance [example_vehicle 0 0 100, example_vehicle 1 0 100])\<lparr>vehicles := vs\<rparr>) []))
         \<noteq> Some 0"
    using stub_oracle_infeasible_below by blast
  obtain r where h3: "dichotomy (stub_oracle 10 4 unrouted_solution)
        (example_instance [example_vehicle 0 0 100, example_vehicle 1 0 100]) []
        (example_solution 10 4 0) = Inr r"
    by (simp add: dichotomy_def completion_time_def min_default_def tw_start_def probe_completion_def
        dichotomy_loop.simps example_defs)
  have "r = [(example_solution 10 4 0)\<lparr>origin := Some ''initial''\<rparr>]"
    by (rule dichotomy_only_initial[OF h1 h2 h3])
  then show ?thesis using h1 h3 by simp
qed

section \<open>Claims about the backward sweep\<close>

lemma backward_loop_result:
  assumes run: "backward_loop solve cl_args current latest u sols = Some y"
    and tail: "sols \<noteq> [] \<longrightarrow> u = unassigned (summary (last sols))"
    and front: "\<forall>s\<in>set (butlast sols). unassigned (summary s) = Some 0"
    and y: "y = Inr r"
  shows "\<exists>appended. r = sols @ appended
           \<and> (\<forall>s\<in>set appended. \<exists>cur. s = (solve cur cl_args)\<lparr>origin := Some ''backward_search''\<rparr>)
           \<and> (\<forall>s\<in>set (butlast r). unassigned (summary s) = Some 0)
           \<and> (r \<noteq> [] \<longrightarrow> unassigned (summary (last r)) \<noteq> Some 0)
           \<and> (u = Some 0 \<longleftrightarrow> appended \<noteq> [])"
proof -
  let ?Post = "\<lambda>solve cl_args u sols r. \<exists>appended. r = sols @ appended
           \<and> (\<forall>s\<in>set appended. \<exists>cur. s = (solve cur cl_args)\<lparr>origin := Some ''backward_search''\<rparr>)
           \<and> (\<forall>s\<in>set (butlast r). unassigned (summary s) = Some 0)
           \<and> (r \<noteq> [] \<longrightarrow> unassigned (summary (last r)) \<noteq> Some 0)
           \<and> (u = Some 0 \<longleftrightarrow> appended \<noteq> [])"
  let ?P = "\<lambda>solve cl_args (current :: problem_instance) (latest :: int) u sols y.
              (sols \<noteq> [] \<longrightarrow> u = unassigned (summary (last sols))) \<longrightarrow>
              (\<forall>s\<in>set (butlast sols). unassigned (summary s) = Some 0) \<longrightarrow>
              (\<forall>r. y = Inr r \<longrightarrow> ?Post solve cl_args u sols r)"
  have "?P solve cl_args current latest u sols y"
  proof (rule backward_loop.raw_induct[where P = ?P, OF _ run], intro impI allI, goal_cases)
    case (1 loop solve cl_args current latest u sols y r)
    note IH = 1(1) and body = 1(2) and tail = 1(3) and front = 1(4) and y = 1(5)
    show ?case
    proof (cases "u = Some 0")
      case False
      then have "r = sols" using body y by simp
      then show ?thesis using False tail front by auto
    next
      case True
      let ?sol = "solve current cl_args"
      let ?tagged = "?sol\<lparr>origin := Some ''backward_search''\<rparr>"
      obtain ct where ct: "completion_time ?sol = Inr ct"
        using body y True by (cases "completion_time ?sol") (simp_all add: Let_def)
      obtain vs where vs: "sweep_vehicles (latest - 1) (vehicles current) = Inr vs"
        using body y True ct by (cases "sweep_vehicles (latest - 1) (vehicles current)")
          (simp_all add: Let_def)
      have rec: "loop solve cl_args (current\<lparr>vehicles := vs\<rparr>) (latest - 1)
                   (unassigned (summary ?sol)) (sols @ [?tagged]) = Some y"
        using body True ct vs by (simp add: Let_def)
      have front': "\<forall>s\<in>set (butlast (sols @ [?tagged])). unassigned (summary s) = Some 0"
      proof
        fix s assume "s \<in> set (butlast (sols @ [?tagged]))"
        then have s: "s \<in> set sols" by simp
        show "unassigned (summary s) = Some 0"
        proof (cases "s \<in> set (butlast sols)")
          case True
          then show ?thesis using front by blast
        next
          case False
          have ne: "sols \<noteq> []" using s by auto
          then have "set sols = set (butlast sols @ [last sols])" by simp
          also have "\<dots> = set (butlast sols) \<union> {last sols}"
            by (simp only: set_append list.set)
          finally have "s = last sols" using s False by blast
          then show ?thesis using tail True ne by simp
        qed
      qed
      have tail': "sols @ [?tagged] \<noteq> [] \<longrightarrow>
                    unassigned (summary ?sol) = unassigned (summary (last (sols @ [?tagged])))"
        by simp
      have "?Post solve cl_args (unassigned (summary ?sol)) (sols @ [?tagged]) r"
        using IH[OF rec] tail' front' y by blast
      then obtain appended where app: "r = (sols @ [?tagged]) @ appended"
        "\<forall>s\<in>set appended. \<exists>cur. s = (solve cur cl_args)\<lparr>origin := Some ''backward_search''\<rparr>"
        "\<forall>s\<in>set (butlast r). unassigned (summary s) = Some 0"
        "r \<noteq> [] \<longrightarrow> unassigned (summary (last r)) \<noteq> Some 0"
        by blast
      show ?thesis
      proof (intro exI[of _ "?tagged # appended"] conjI)
        show "r = sols @ ?tagged # appended" using app(1) by simp
        show "\<forall>s\<in>set (?tagged # appended). \<exists>cur. s = (solve cur cl_args)\<lparr>origin := Some ''backward_search''\<rparr>"
          using app(2) by auto
        show "\<forall>s\<in>set (butlast r). unassigned (summary s) = Some 0" by (rule app(3))
        show "r \<noteq> [] \<longrightarrow> unassigned (summary (last r)) \<noteq> Some 0" by (rule app(4))
        show "(u = Some 0) = (?tagged # appended \<noteq> [])" using True by simp
      qed
    qed
  qed
  then show ?thesis using tail front y by blast
qed

text \<open>
  The shape of a returned sweep. When the backward sweep returns a list, every member is
  an oracle result tagged \<open>backward_search\<close>; all members but the last have no
  unassigned job and the last one has an unassigned count other than zero; the list is
  empty exactly when the loop is not entered, and otherwise starts with the result for
  the unconstrained instance. This says nothing about the runs that raise or never
  return; the lemmas after it say what one iteration does.
\<close>

lemma backward_search_shape:
  assumes "backward_search solve data cl_args first_solution = Some (Inr result)"
  shows "(\<forall>s\<in>set result. \<exists>cur. s = (solve cur cl_args)\<lparr>origin := Some ''backward_search''\<rparr>)
       \<and> (\<forall>s\<in>set (butlast result). unassigned (summary s) = Some 0)
       \<and> (result \<noteq> [] \<longrightarrow> unassigned (summary (last result)) \<noteq> Some 0)
       \<and> (result \<noteq> [] \<longleftrightarrow>
            (case unassigned (summary first_solution) of None \<Rightarrow> 0 | Some u \<Rightarrow> u) = 0)
       \<and> (result \<noteq> [] \<longrightarrow> hd result = (solve data cl_args)\<lparr>origin := Some ''backward_search''\<rparr>)"
proof -
  define u0 where "u0 = Some (case unassigned (summary first_solution) of None \<Rightarrow> (0::int) | Some u \<Rightarrow> u)"
  obtain latest where run: "backward_loop solve cl_args data latest u0 [] = Some (Inr result)"
    using assms unfolding backward_search_def u0_def
    by (cases "completion_time first_solution") simp_all
  from backward_loop_result[OF run _ _ refl]
  obtain appended where app: "result = [] @ appended"
    "\<forall>s\<in>set appended. \<exists>cur. s = (solve cur cl_args)\<lparr>origin := Some ''backward_search''\<rparr>"
    "\<forall>s\<in>set (butlast result). unassigned (summary s) = Some 0"
    "result \<noteq> [] \<longrightarrow> unassigned (summary (last result)) \<noteq> Some 0"
    "u0 = Some 0 \<longleftrightarrow> appended \<noteq> []"
    by auto
  have entered: "result \<noteq> [] \<longleftrightarrow>
      (case unassigned (summary first_solution) of None \<Rightarrow> 0 | Some u \<Rightarrow> u) = 0"
    using app(1,5) unfolding u0_def by simp
  have first: "hd result = (solve data cl_args)\<lparr>origin := Some ''backward_search''\<rparr>"
    if ne: "result \<noteq> []"
  proof -
    let ?sol = "solve data cl_args"
    let ?tagged = "?sol\<lparr>origin := Some ''backward_search''\<rparr>"
    have u: "u0 = Some 0" using ne app(1,5) by simp
    have body: "(case completion_time ?sol of
                   Inl e \<Rightarrow> Some (Inl e)
                 | Inr ct \<Rightarrow>
                    (case sweep_vehicles (latest - 1) (vehicles data) of
                       Inl e \<Rightarrow> Some (Inl e)
                     | Inr vs \<Rightarrow> backward_loop solve cl_args (data\<lparr>vehicles := vs\<rparr>) (latest - 1)
                                   (unassigned (summary ?sol)) ([] @ [?tagged])))
                = Some (Inr result)"
      using run u by (subst (asm) backward_loop.simps) (simp add: Let_def)
    obtain ct where ct: "completion_time ?sol = Inr ct"
      using body by (cases "completion_time ?sol") simp_all
    obtain vs where vs: "sweep_vehicles (latest - 1) (vehicles data) = Inr vs"
      using body ct by (cases "sweep_vehicles (latest - 1) (vehicles data)") simp_all
    have rec: "backward_loop solve cl_args (data\<lparr>vehicles := vs\<rparr>) (latest - 1)
                 (unassigned (summary ?sol)) [?tagged] = Some (Inr result)"
      using body ct vs by simp
    from backward_loop_result[OF rec _ _ refl]
    obtain rest where "result = [?tagged] @ rest" by auto
    then show ?thesis by simp
  qed
  show ?thesis using app(1-4) entered first by simp
qed

lemma backward_search_shape_example:
  "backward_search (stub_oracle 7 4 (example_solution 3 1 1))
      (example_instance [example_vehicle 0 0 100]) [] (example_solution 7 4 0)
     = Some (Inr [(example_solution 7 4 0)\<lparr>origin := Some ''backward_search''\<rparr>,
                  (example_solution 3 1 1)\<lparr>origin := Some ''backward_search''\<rparr>])
   \<and> unassigned (summary (last [(example_solution 7 4 0)\<lparr>origin := Some ''backward_search''\<rparr>,
                  (example_solution 3 1 1)\<lparr>origin := Some ''backward_search''\<rparr>])) \<noteq> Some 0
   \<and> unassigned (summary ((example_solution 7 4 0)\<lparr>origin := Some ''backward_search''\<rparr>)) = Some 0"
proof -
  have h: "backward_search (stub_oracle 7 4 (example_solution 3 1 1))
      (example_instance [example_vehicle 0 0 100]) [] (example_solution 7 4 0)
     = Some (Inr [(example_solution 7 4 0)\<lparr>origin := Some ''backward_search''\<rparr>,
                  (example_solution 3 1 1)\<lparr>origin := Some ''backward_search''\<rparr>])"
    by (simp add: backward_search_def completion_time_def backward_loop.simps example_defs)
  note shape = backward_search_shape[OF h]
  have ne: "[(example_solution 7 4 0)\<lparr>origin := Some ''backward_search''\<rparr>,
             (example_solution 3 1 1)\<lparr>origin := Some ''backward_search''\<rparr>] \<noteq> []"
    by simp
  have front: "unassigned (summary ((example_solution 7 4 0)\<lparr>origin := Some ''backward_search''\<rparr>)) = Some 0"
    using shape[THEN conjunct2, THEN conjunct1] by simp
  note final = shape[THEN conjunct2, THEN conjunct2, THEN conjunct1, THEN mp, OF ne]
  show ?thesis by (intro conjI h final front)
qed

text \<open>
  One iteration of the sweep, with no assumption that the sweep returns. A loop that is
  not entered returns what it has. A probe whose completion time is defined and whose
  clamping goes through is appended; the loop goes on when the probe has no unassigned
  job and returns at once otherwise. A probe whose completion time is not defined (no
  route, or a route without steps) is not appended: the sweep raises, whatever the
  probe's unassigned count.
\<close>

lemma backward_loop_not_entered:
  "u \<noteq> Some 0 \<Longrightarrow> backward_loop solve cl_args current latest u sols = Some (Inr sols)"
  by (subst backward_loop.simps) simp

lemma backward_loop_continue:
  assumes "completion_time (solve current cl_args) = Inr ct"
    and "sweep_vehicles (latest - 1) (vehicles current) = Inr vs"
    and "unassigned (summary (solve current cl_args)) = Some 0"
  shows "backward_loop solve cl_args current latest (Some 0) sols =
           backward_loop solve cl_args (current\<lparr>vehicles := vs\<rparr>) (latest - 1) (Some 0)
             (sols @ [(solve current cl_args)\<lparr>origin := Some ''backward_search''\<rparr>])"
  using assms by (subst backward_loop.simps) (simp add: Let_def)

lemma backward_loop_exit:
  assumes "completion_time (solve current cl_args) = Inr ct"
    and "sweep_vehicles (latest - 1) (vehicles current) = Inr vs"
    and "unassigned (summary (solve current cl_args)) \<noteq> Some 0"
  shows "backward_loop solve cl_args current latest (Some 0) sols =
           Some (Inr (sols @ [(solve current cl_args)\<lparr>origin := Some ''backward_search''\<rparr>]))"
proof -
  have "backward_loop solve cl_args current latest (Some 0) sols =
          backward_loop solve cl_args (current\<lparr>vehicles := vs\<rparr>) (latest - 1)
            (unassigned (summary (solve current cl_args)))
            (sols @ [(solve current cl_args)\<lparr>origin := Some ''backward_search''\<rparr>])"
    using assms(1,2) by (subst backward_loop.simps) (simp add: Let_def)
  also have "\<dots> = Some (Inr (sols @ [(solve current cl_args)\<lparr>origin := Some ''backward_search''\<rparr>]))"
    using assms(3) by (rule backward_loop_not_entered)
  finally show ?thesis .
qed

lemma backward_loop_probe_raises:
  assumes "completion_time (solve current cl_args) = Inl e"
  shows "backward_loop solve cl_args current latest (Some 0) sols = Some (Inl e)"
  using assms by (subst backward_loop.simps) (simp add: Let_def)

lemma backward_loop_clamp_raises:
  assumes "completion_time (solve current cl_args) = Inr ct"
    and "sweep_vehicles (latest - 1) (vehicles current) = Inl e"
  shows "backward_loop solve cl_args current latest (Some 0) sols = Some (Inl e)"
  using assms by (subst backward_loop.simps) (simp add: Let_def)

text \<open>
  Claim C7 does not hold of the code. The sweep below is entered, and its first probe (the
  unconstrained instance) is feasible. Its second probe, at horizon 6, is the first one
  with an unassigned job, and it has no route. \<open>backward_search\<close> computes the probe's
  completion time for the log line (line 155) before it appends the probe (line 167), and
  without the guard that \<open>dichotomy\<close> has: the sweep raises ValueError, the probe is
  not appended and no list is returned. When the infeasible probe has a route, as in
  \<open>backward_search_shape_example\<close>, it is appended and the sweep returns.
\<close>

theorem sweep_drops_probe_without_routes:
  "(case unassigned (summary (example_solution 7 4 0)) of None \<Rightarrow> 0 | Some u \<Rightarrow> u) = 0
   \<and> unassigned (summary (stub_oracle 7 4 unrouted_solution
         (example_instance [example_vehicle 0 0 100]) [])) = Some 0
   \<and> sweep_vehicles (7 - 1) (vehicles (example_instance [example_vehicle 0 0 100]))
       = Inr [example_vehicle 0 0 6]
   \<and> stub_oracle 7 4 unrouted_solution
        ((example_instance [example_vehicle 0 0 100])\<lparr>vehicles := [example_vehicle 0 0 6]\<rparr>) []
       = unrouted_solution
   \<and> unassigned (summary unrouted_solution) = Some 1
   \<and> routes unrouted_solution = []
   \<and> completion_time unrouted_solution = Inl ValueError
   \<and> backward_search (stub_oracle 7 4 unrouted_solution)
        (example_instance [example_vehicle 0 0 100]) [] (example_solution 7 4 0)
       = Some (Inl ValueError)"
proof (intro conjI)
  show "(case unassigned (summary (example_solution 7 4 0)) of None \<Rightarrow> 0 | Some u \<Rightarrow> u) = 0"
    by (simp add: example_defs)
  show "unassigned (summary (stub_oracle 7 4 unrouted_solution
          (example_instance [example_vehicle 0 0 100]) [])) = Some 0"
    by (simp add: example_defs)
  show "sweep_vehicles (7 - 1) (vehicles (example_instance [example_vehicle 0 0 100]))
          = Inr [example_vehicle 0 0 6]"
    by (simp add: example_defs)
  show "stub_oracle 7 4 unrouted_solution
          ((example_instance [example_vehicle 0 0 100])\<lparr>vehicles := [example_vehicle 0 0 6]\<rparr>) []
        = unrouted_solution"
    by (simp add: example_defs)
  show "unassigned (summary unrouted_solution) = Some 1"
    by (simp add: example_defs)
  show "routes unrouted_solution = []"
    by (simp add: example_defs)
  show "completion_time unrouted_solution = Inl ValueError"
    by (simp add: completion_time_def example_defs)
  show "backward_search (stub_oracle 7 4 unrouted_solution)
          (example_instance [example_vehicle 0 0 100]) [] (example_solution 7 4 0)
        = Some (Inl ValueError)"
    by (simp add: backward_search_def completion_time_def backward_loop.simps example_defs)
qed

section \<open>Claims about solve\_asap\<close>

text \<open>
  Claim C5 does not hold of the code. The initial solve below succeeds (status 0, nothing
  unassigned). With the backward sweep requested, the second probe of the sweep leaves
  the job unassigned and has no route; \<open>backward_search\<close> computes its completion time
  for the log line without the guard that \<open>dichotomy\<close> has, and \<open>solve_asap\<close> ends with
  ValueError. Without the sweep the same request returns the frontier.
\<close>

theorem sweep_probe_without_routes_raises:
  "code (stub_oracle 7 4 unrouted_solution (example_instance [example_vehicle 0 0 100]) []) = Some 0
   \<and> unassigned (summary (stub_oracle 7 4 unrouted_solution
        (example_instance [example_vehicle 0 0 100]) [])) = Some 0
   \<and> solve_asap (stub_oracle 7 4 unrouted_solution)
        \<lparr>instance_of = example_instance [example_vehicle 0 0 100], return_pareto_front = True,
         pareto_front_more_solution = True, cl_args_of = [], pareto_plot_file = ''''\<rparr>
       = Some (Inl ValueError)
   \<and> solve_asap (stub_oracle 7 4 unrouted_solution)
        \<lparr>instance_of = example_instance [example_vehicle 0 0 100], return_pareto_front = True,
         pareto_front_more_solution = False, cl_args_of = [], pareto_plot_file = ''''\<rparr>
       = Some (Inr (Front [example_solution 7 4 0]))"
proof (intro conjI)
  show "code (stub_oracle 7 4 unrouted_solution (example_instance [example_vehicle 0 0 100]) []) = Some 0"
    by (simp add: example_defs)
  show "unassigned (summary (stub_oracle 7 4 unrouted_solution
          (example_instance [example_vehicle 0 0 100]) [])) = Some 0"
    by (simp add: example_defs)
  have init: "stub_oracle 7 4 unrouted_solution (example_instance [example_vehicle 0 0 100]) []
                = example_solution 7 4 0"
    by (simp add: example_defs)
  have dich: "dichotomy (stub_oracle 7 4 unrouted_solution) (example_instance [example_vehicle 0 0 100]) []
                (example_solution 7 4 0) = Inr [(example_solution 7 4 0)\<lparr>origin := Some ''initial''\<rparr>]"
    by (simp add: dichotomy_def completion_time_def min_default_def tw_start_def probe_completion_def
          dichotomy_loop.simps example_defs)
  have sweep: "backward_search (stub_oracle 7 4 unrouted_solution)
                (example_instance [example_vehicle 0 0 100]) [] (example_solution 7 4 0)
              = Some (Inl ValueError)"
    by (simp add: backward_search_def completion_time_def backward_loop.simps example_defs)
  have facts: "code (example_solution 7 4 0) = Some 0"
    "unassigned (summary (example_solution 7 4 0)) = Some 0"
    by (simp_all add: example_defs)
  show "solve_asap (stub_oracle 7 4 unrouted_solution)
        \<lparr>instance_of = example_instance [example_vehicle 0 0 100], return_pareto_front = True,
         pareto_front_more_solution = True, cl_args_of = [], pareto_plot_file = ''''\<rparr>
       = Some (Inl ValueError)"
    by (simp add: solve_asap_def init dich sweep facts)
  have red: "reduce_and_return
        \<lparr>instance_of = example_instance [example_vehicle 0 0 100], return_pareto_front = True,
         pareto_front_more_solution = False, cl_args_of = [], pareto_plot_file = ''''\<rparr>
        [(example_solution 7 4 0)\<lparr>origin := Some ''initial''\<rparr>]
       = Inr (Front [example_solution 7 4 0])"
    by (simp add: reduce_and_return_def sort_by_completion_def filter_dominated_def
          filter_unique_def completion_time_def sorted_set_reversed_def strip_origin_def
          example_defs)
  show "solve_asap (stub_oracle 7 4 unrouted_solution)
        \<lparr>instance_of = example_instance [example_vehicle 0 0 100], return_pareto_front = True,
         pareto_front_more_solution = False, cl_args_of = [], pareto_plot_file = ''''\<rparr>
       = Some (Inr (Front [example_solution 7 4 0]))"
    by (simp add: solve_asap_def init dich facts red)
qed

section \<open>The returned frontier is sorted\<close>

lemma zip_completion:
  assumes "completion_times pool = Inr cts" "p \<in> set (zip cts pool)"
  shows "completion_time (snd p) = Inr (fst p)"
proof -
  obtain i where i: "i < length (zip cts pool)" "p = zip cts pool ! i"
    using assms(2) unfolding in_set_conv_nth by blast
  then have "i < length pool" "p = (cts ! i, pool ! i)" by simp_all
  then show ?thesis using completion_times_nth(2)[OF assms(1)] by simp
qed

lemma sort_by_completion_sorted:
  assumes "sort_by_completion pool = Inr sorted_pool"
  shows "\<exists>cs. completion_times sorted_pool = Inr cs \<and> sorted cs"
proof -
  obtain cts where cts: "completion_times pool = Inr cts"
    and sp: "sorted_pool = map snd (sort_key fst (zip cts pool))"
    using assms by (auto simp: sort_by_completion_def split: sum.splits)
  let ?Z = "sort_key fst (zip cts pool)"
  have "map completion_time sorted_pool = map (\<lambda>p. completion_time (snd p)) ?Z"
    unfolding sp by simp
  also have "\<dots> = map (\<lambda>p. Inr (fst p)) ?Z"
    by (rule map_cong[OF refl]) (simp add: zip_completion[OF cts])
  also have "\<dots> = map Inr (map fst ?Z)" by simp
  finally have "completion_times sorted_pool = Inr (map fst ?Z)"
    by (simp add: completion_times_map)
  moreover have "sorted (map fst ?Z)" by (rule sorted_sort_key)
  ultimately show ?thesis by blast
qed

lemma sort_by_completion_stable:
  assumes "sort_by_completion pool = Inr sorted_pool"
  shows "filter (\<lambda>s. completion_time s = Inr k) sorted_pool
           = filter (\<lambda>s. completion_time s = Inr k) pool"
proof -
  obtain cts where cts: "completion_times pool = Inr cts"
    and sp: "sorted_pool = map snd (sort_key fst (zip cts pool))"
    using assms by (auto simp: sort_by_completion_def split: sum.splits)
  let ?Z = "zip cts pool"
  let ?P = "\<lambda>s. completion_time s = Inr k"
  have same: "filter (\<lambda>p. ?P (snd p)) zs = filter (\<lambda>p. fst p = k) zs" if "set zs \<subseteq> set ?Z" for zs
    by (rule filter_cong[OF refl]) (use that zip_completion[OF cts] in auto)
  have "filter ?P sorted_pool = map snd (filter (\<lambda>p. ?P (snd p)) (sort_key fst ?Z))"
    unfolding sp by (simp add: filter_map comp_def)
  also have "\<dots> = map snd (filter (\<lambda>p. fst p = k) (sort_key fst ?Z))"
    by (subst same) simp_all
  also have "\<dots> = map snd (filter (\<lambda>p. fst p = k) ?Z)"
    by (simp only: sort_key_stable)
  also have "\<dots> = map snd (filter (\<lambda>p. ?P (snd p)) ?Z)"
    by (subst same) simp_all
  also have "\<dots> = filter ?P (map snd ?Z)"
    by (simp add: filter_map comp_def)
  also have "map snd ?Z = pool"
    using completion_times_nth(1)[OF cts] by simp
  finally show ?thesis .
qed

lemma filter_dominated_nths:
  assumes "filter_dominated pool = Inr und"
  shows "\<exists>A. und = nths pool A"
proof -
  obtain cts where "completion_times pool = Inr cts"
    using assms by (auto simp: filter_dominated_def split: sum.splits)
  from filter_dominated_eq[OF this] assms show ?thesis
    by (auto simp: filter_eq_nths)
qed

lemma filter_unique_nths_ex:
  assumes "filter_unique pool = Inr fr"
  shows "\<exists>A. fr = nths pool A"
proof -
  obtain cts where "completion_times pool = Inr cts"
    using assms by (auto simp: filter_unique_def split: sum.splits)
  from filter_unique_nths[OF this] assms show ?thesis by auto
qed

lemma completion_times_strip:
  "completion_times (map strip_origin sols) = completion_times sols"
proof (induction sols)
  case Nil
  then show ?case by simp
next
  case (Cons s sols)
  have "completion_time (strip_origin s) = completion_time s"
    by (simp add: strip_origin_def)
  then show ?case using Cons.IH by (simp split: sum.splits)
qed

lemma reduce_and_return_front:
  assumes "reduce_and_return problem pool = Inr (Front frontier)"
  shows "return_pareto_front problem
       \<and> (\<exists>cts. completion_times frontier = Inr cts \<and> sorted cts)
       \<and> (\<exists>sorted_pool A. sort_by_completion pool = Inr sorted_pool
             \<and> frontier = map strip_origin (nths sorted_pool A)
             \<and> (\<forall>k. filter (\<lambda>s. completion_time s = Inr k) sorted_pool
                      = filter (\<lambda>s. completion_time s = Inr k) pool))"
proof -
  obtain sp where sp: "sort_by_completion pool = Inr sp"
    using assms by (cases "sort_by_completion pool") (simp_all add: reduce_and_return_def)
  obtain und where und: "filter_dominated sp = Inr und"
    using assms sp by (cases "filter_dominated sp") (simp_all add: reduce_and_return_def)
  obtain fr where fr: "filter_unique und = Inr fr"
    using assms sp und by (cases "filter_unique und") (simp_all add: reduce_and_return_def)
  have rpf: "return_pareto_front problem"
    using assms sp und fr by (auto simp: reduce_and_return_def split: if_splits list.splits)
  then have frontier: "frontier = map strip_origin fr"
    using assms sp und fr by (simp add: reduce_and_return_def)
  obtain A where A: "und = nths sp A" using filter_dominated_nths[OF und] by blast
  obtain B where B: "fr = nths und B" using filter_unique_nths_ex[OF fr] by blast
  obtain C where C: "fr = nths sp C" unfolding B A nths_nths by blast
  obtain cs where cs: "completion_times sp = Inr cs" "sorted cs"
    using sort_by_completion_sorted[OF sp] by blast
  have "completion_times frontier = Inr (nths cs C)"
    unfolding frontier C completion_times_strip by (rule completion_times_nths[OF cs(1)])
  moreover have "sorted (nths cs C)" using cs(2) by (rule sorted_nths)
  ultimately have sorted: "\<exists>cts. completion_times frontier = Inr cts \<and> sorted cts" by blast
  have "\<forall>k. filter (\<lambda>s. completion_time s = Inr k) sp = filter (\<lambda>s. completion_time s = Inr k) pool"
    using sort_by_completion_stable[OF sp] by blast
  then show ?thesis using rpf sorted sp frontier C by blast
qed

lemma solve_asap_reduces:
  assumes "solve_asap solve problem = Some (Inr response)"
  shows "\<exists>pool. reduce_and_return problem pool = Inr response"
  using assms unfolding solve_asap_def Let_def
  by (auto split: if_splits option.splits sum.splits)

text \<open>
  Claim C2. When \<open>solve_asap\<close> returns the full frontier, the completion times of the
  returned list are defined and ascending. The list is an order-preserving selection
  (then stripped of its origin tags) of the pool sorted by completion time, and that sort
  is stable: members with the same completion time keep the order they had in the pool.
\<close>

theorem solve_asap_front_sorted:
  assumes "solve_asap solve problem = Some (Inr (Front frontier))"
  shows "return_pareto_front problem
       \<and> (\<exists>cts. completion_times frontier = Inr cts \<and> sorted cts)
       \<and> (\<exists>pool sorted_pool A. sort_by_completion pool = Inr sorted_pool
             \<and> frontier = map strip_origin (nths sorted_pool A)
             \<and> (\<forall>k. filter (\<lambda>s. completion_time s = Inr k) sorted_pool
                      = filter (\<lambda>s. completion_time s = Inr k) pool))"
proof -
  obtain pool where "reduce_and_return problem pool = Inr (Front frontier)"
    using solve_asap_reduces[OF assms] by blast
  from reduce_and_return_front[OF this] show ?thesis by blast
qed

theorem solve_asap_front_sorted_witness:
  "solve_asap (\<lambda>inst args. stub_oracle 10 4 (stub_oracle 7 9 unrouted_solution inst args) inst args)
      \<lparr>instance_of = example_instance [example_vehicle 0 0 100, example_vehicle 2 0 100],
       return_pareto_front = True, pareto_front_more_solution = False, cl_args_of = [],
       pareto_plot_file = ''''\<rparr>
     = Some (Inr (Front [example_solution 7 9 0, example_solution 10 4 0]))
   \<and> (\<exists>cts. completion_times [example_solution 7 9 0, example_solution 10 4 0] = Inr cts
           \<and> sorted cts)"
proof -
  let ?solve = "\<lambda>inst args. stub_oracle 10 4 (stub_oracle 7 9 unrouted_solution inst args) inst args"
  let ?inst = "example_instance [example_vehicle 0 0 100, example_vehicle 2 0 100]"
  let ?problem = "\<lparr>instance_of = ?inst,
       return_pareto_front = True, pareto_front_more_solution = False, cl_args_of = [],
       pareto_plot_file = ''''\<rparr>"
  have init: "?solve ?inst [] = example_solution 10 4 0"
    by (simp add: example_defs)
  have facts: "code (example_solution 10 4 0) = Some 0"
    "unassigned (summary (example_solution 10 4 0)) = Some 0"
    by (simp_all add: example_defs)
  have dich: "dichotomy ?solve ?inst [] (example_solution 10 4 0)
                = Inr [(example_solution 10 4 0)\<lparr>origin := Some ''initial''\<rparr>,
                       (example_solution 7 9 0)\<lparr>origin := Some ''dichotomy''\<rparr>]"
    by (simp add: dichotomy_def completion_time_def min_default_def tw_start_def probe_completion_def
          dichotomy_loop.simps example_defs)
  have red: "reduce_and_return ?problem
               [(example_solution 10 4 0)\<lparr>origin := Some ''initial''\<rparr>,
                (example_solution 7 9 0)\<lparr>origin := Some ''dichotomy''\<rparr>]
             = Inr (Front [example_solution 7 9 0, example_solution 10 4 0])"
    by (simp add: reduce_and_return_def sort_by_completion_def filter_dominated_def
          filter_unique_def completion_time_def sorted_set_reversed_def strip_origin_def
          example_defs upt_conv_Cons)
  have h: "solve_asap ?solve ?problem
             = Some (Inr (Front [example_solution 7 9 0, example_solution 10 4 0]))"
    by (simp add: solve_asap_def init dich facts red)
  note sorted = solve_asap_front_sorted[OF h, THEN conjunct2, THEN conjunct1]
  show ?thesis by (intro conjI h sorted)
qed

section \<open>Where an OSError can come from\<close>

lemma last_arrivals_error: "last_arrivals rs = Inl e \<Longrightarrow> e = IndexError"
  by (induction rs arbitrary: e) (auto split: if_splits sum.splits)

lemma completion_time_error: "completion_time sol = Inl e \<Longrightarrow> e = IndexError \<or> e = ValueError"
proof -
  assume a: "completion_time sol = Inl e"
  show ?thesis
  proof (cases "last_arrivals (routes sol)")
    case (Inl e')
    then show ?thesis using a last_arrivals_error[OF Inl] by (simp add: completion_time_def)
  next
    case (Inr as)
    then show ?thesis using a by (cases as) (simp_all add: completion_time_def)
  qed
qed

lemma completion_times_error:
  "completion_times sols = Inl e \<Longrightarrow> e = IndexError \<or> e = ValueError"
proof (induction sols)
  case Nil
  then show ?case by simp
next
  case (Cons s sols)
  show ?case
  proof (cases "completion_time s")
    case (Inl e')
    then show ?thesis using Cons.prems completion_time_error[OF Inl] by simp
  next
    case (Inr c)
    then show ?thesis using Cons by (cases "completion_times sols") simp_all
  qed
qed

lemma pop_all_error: "pop_all idxs xs = Inl e \<Longrightarrow> e = IndexError"
  by (induction idxs arbitrary: xs) (auto split: if_splits)

lemma probe_completion_error:
  "probe_completion sol = Inl e \<Longrightarrow> e = IndexError \<or> e = ValueError"
  using completion_time_error[of sol e]
  by (cases "completion_time sol") (auto simp: probe_completion_def split: if_splits)

lemma dichotomy_loop_error:
  "dichotomy_loop solve cl_args init_input earliest latest solutions = Inl e \<Longrightarrow>
     e = KeyError \<or> e = IndexError \<or> e = ValueError"
proof (induction solve cl_args init_input earliest latest solutions rule: dichotomy_loop.induct)
  case (1 solve cl_args init_input earliest latest solutions)
  let ?c = "(earliest + latest) div 2"
  note unfold = dichotomy_loop.simps[of solve cl_args init_input earliest latest]
  show ?case
  proof (cases "?c = earliest \<or> ?c = latest")
    case True
    then show ?thesis using "1.prems" by (simp add: unfold)
  next
    case False
    show ?thesis
    proof (cases "shrink_vehicles ?c (vehicles init_input)")
      case (Inl e')
      then show ?thesis using "1.prems" False shrink_vehicles_error[OF Inl] by (simp add: unfold)
    next
      case (Inr vs)
      let ?sol = "solve (init_input\<lparr>vehicles := vs\<rparr>) cl_args"
      show ?thesis
      proof (cases "probe_completion ?sol")
        case (Inl e')
        then show ?thesis
          using "1.prems" False Inr probe_completion_error[OF Inl] by (simp add: unfold)
      next
        case ct: (Inr ct)
        show ?thesis
        proof (cases "unassigned (summary ?sol) = Some 0")
          case True
          have "dichotomy_loop solve cl_args init_input earliest ?c
                  (solutions @ [?sol\<lparr>origin := Some ''dichotomy''\<rparr>]) = Inl e"
            using "1.prems" False Inr ct True by (simp add: unfold)
          from "1.IH"(1)[OF refl False Inr refl ct True this] show ?thesis .
        next
          case infeasible: False
          have "dichotomy_loop solve cl_args init_input ?c latest solutions = Inl e"
            using "1.prems" False Inr ct infeasible by (simp add: unfold)
          from "1.IH"(2)[OF refl False Inr refl ct infeasible this] show ?thesis .
        qed
      qed
    qed
  qed
qed

lemma dichotomy_error:
  assumes "dichotomy solve data cl_args first_solution = Inl e"
  shows "e = KeyError \<or> e = IndexError \<or> e = ValueError"
proof (cases "completion_time first_solution")
  case (Inl e')
  then show ?thesis using assms completion_time_error[OF Inl] by (simp add: dichotomy_def)
next
  case (Inr T)
  then obtain d ds where ed: "last_arrivals (routes first_solution) = Inr (d # ds)"
    by (auto simp: completion_time_def split: sum.splits elim: py_max.elims)
  then show ?thesis
    using assms Inr dichotomy_loop_error by (simp add: dichotomy_def Let_def)
qed

lemma backward_loop_error:
  assumes "backward_loop solve cl_args current latest u sols = Some (Inl e)"
  shows "e = KeyError \<or> e = IndexError \<or> e = ValueError"
proof -
  let ?P = "\<lambda>solve cl_args (current :: problem_instance) (latest :: int) (u :: int option)
              (sols :: solution list) y.
              \<forall>e. y = Inl e \<longrightarrow> e = KeyError \<or> e = IndexError \<or> e = ValueError"
  define y where "y = (Inl e :: error + solution list)"
  have run: "backward_loop solve cl_args current latest u sols = Some y"
    using assms unfolding y_def .
  have "?P solve cl_args current latest u sols y"
  proof (rule backward_loop.raw_induct[where P = ?P, OF _ run], intro allI impI, goal_cases)
    case (1 loop solve cl_args current latest u sols y e)
    note IH = 1(1) and body = 1(2) and y = 1(3)
    have u: "u = Some 0" using body y by (auto split: if_splits)
    let ?sol = "solve current cl_args"
    show ?case
    proof (cases "completion_time ?sol")
      case (Inl e')
      then show ?thesis using body y u completion_time_error[OF Inl] by (simp add: Let_def)
    next
      case ct: (Inr ct)
      show ?thesis
      proof (cases "sweep_vehicles (latest - 1) (vehicles current)")
        case (Inl e')
        then show ?thesis using body y u ct sweep_vehicles_error[OF Inl] by (simp add: Let_def)
      next
        case (Inr vs)
        then have "loop solve cl_args (current\<lparr>vehicles := vs\<rparr>) (latest - 1)
                     (unassigned (summary ?sol))
                     (sols @ [?sol\<lparr>origin := Some ''backward_search''\<rparr>]) = Some y"
          using body u ct by (simp add: Let_def)
        from IH[OF this] y show ?thesis by blast
      qed
    qed
  qed
  then show ?thesis unfolding y_def by blast
qed

lemma backward_search_error:
  assumes "backward_search solve data cl_args first_solution = Some (Inl e)"
  shows "e = KeyError \<or> e = IndexError \<or> e = ValueError"
proof (cases "completion_time first_solution")
  case (Inl e')
  then show ?thesis using assms completion_time_error[OF Inl] by (simp add: backward_search_def)
next
  case (Inr T)
  then show ?thesis using assms backward_loop_error by (simp add: backward_search_def)
qed

lemma reduce_and_return_error:
  assumes "reduce_and_return problem pool = Inl e"
  shows "e = IndexError \<or> e = ValueError"
proof -
  have sort: "sort_by_completion xs = Inl e' \<Longrightarrow> e' = IndexError \<or> e' = ValueError" for xs e'
    using completion_times_error[of xs e']
    by (auto simp: sort_by_completion_def split: sum.splits)
  have dom: "filter_dominated xs = Inl e' \<Longrightarrow> e' = IndexError \<or> e' = ValueError" for xs e'
    using completion_times_error[of xs e'] pop_all_error[of _ xs e']
    by (auto simp: filter_dominated_def Let_def split: sum.splits)
  have uniq: "filter_unique xs = Inl e' \<Longrightarrow> e' = IndexError \<or> e' = ValueError" for xs e'
    using completion_times_error[of xs e'] pop_all_error[of _ xs e']
    by (auto simp: filter_unique_def Let_def split: sum.splits)
  show ?thesis
    using assms sort dom uniq
    by (auto simp: reduce_and_return_def split: sum.splits if_splits list.splits)
qed

text \<open>
  For oracle results that carry a summary, as the \<open>solution\<close> record always does, the
  two OSErrors of \<open>solve_asap\<close> come from the initial solve and from nowhere else: the
  oracle's own code and message when the code is not 0, and code 2 with the fixed message
  when the code is 0 and the unassigned count is present and not 0. The record leaves out
  an error response that has no \<open>summary\<close> key: there the log call of line 236, which
  subscripts \<open>init["summary"]\<close> before the status is tested, raises KeyError, and the
  lemma does not speak of that input.
\<close>

lemma solve_asap_oserror:
  "solve_asap solve problem = Some (Inl (OSError c msg)) \<longleftrightarrow>
     (code (solve (instance_of problem) (cl_args_of problem)) = Some c \<and> c \<noteq> 0
        \<and> error (solve (instance_of problem) (cl_args_of problem)) = Some msg)
     \<or> (code (solve (instance_of problem) (cl_args_of problem)) = Some 0
        \<and> (\<exists>u. unassigned (summary (solve (instance_of problem) (cl_args_of problem))) = Some u
                \<and> u \<noteq> 0)
        \<and> c = 2 \<and> msg = ''Initial solution has unassigned jobs'')"
proof -
  let ?init = "solve (instance_of problem) (cl_args_of problem)"
  let ?data = "instance_of problem"
  let ?args = "cl_args_of problem"
  show ?thesis
  proof (cases "(case code ?init of None \<Rightarrow> 1 | Some c \<Rightarrow> c) \<noteq> 0")
    case True
    then show ?thesis
      by (auto simp: solve_asap_def Let_def split: option.splits)
  next
    case ok: False
    then have code0: "code ?init = Some 0" by (auto split: option.splits)
    show ?thesis
    proof (cases "(case unassigned (summary ?init) of None \<Rightarrow> 0 | Some u \<Rightarrow> u) \<noteq> 0")
      case True
      then show ?thesis using code0
        by (auto simp: solve_asap_def Let_def split: option.splits)
    next
      case feasible: False
      have no_u: "\<not> (\<exists>u. unassigned (summary ?init) = Some u \<and> u \<noteq> 0)"
        using feasible by (auto split: option.splits)
      have "solve_asap solve problem \<noteq> Some (Inl (OSError c msg))"
      proof
        assume a: "solve_asap solve problem = Some (Inl (OSError c msg))"
        show False
        proof (cases "dichotomy solve ?data ?args ?init")
          case (Inl e)
          then have "e = OSError c msg" using a ok feasible by (simp add: solve_asap_def Let_def)
          then show False using dichotomy_error[OF Inl] by simp
        next
          case (Inr sols)
          show False
          proof (cases "pareto_front_more_solution problem")
            case False
            then have "reduce_and_return problem sols = Inl (OSError c msg)"
              using a ok feasible Inr by (simp add: solve_asap_def Let_def)
            from reduce_and_return_error[OF this] show False by simp
          next
            case True
            show False
            proof (cases "backward_search solve ?data ?args ?init")
              case None
              then show False using a ok feasible Inr True by (simp add: solve_asap_def Let_def)
            next
              case (Some r)
              show False
              proof (cases r)
                case (Inl e)
                then have "e = OSError c msg"
                  using a ok feasible Inr True Some by (simp add: solve_asap_def Let_def)
                then show False using backward_search_error[of solve ?data ?args ?init e] Some Inl
                  by simp
              next
                case extra: (Inr extra)
                then have "reduce_and_return problem (sols @ extra) = Inl (OSError c msg)"
                  using a ok feasible Inr True Some by (simp add: solve_asap_def Let_def)
                from reduce_and_return_error[OF this] show False by simp
              qed
            qed
          qed
        qed
      qed
      then show ?thesis using code0 no_u by simp
    qed
  qed
qed

section \<open>The filters on small pools\<close>

text \<open>
  Three members at the same point collapse to one in a single call; a member beaten on
  both axes is removed; members tied on an axis all stay.
\<close>

lemma three_duplicates_collapse:
  "filter_unique [example_solution 5 3 0, example_solution 5 3 0, example_solution 5 3 0]
     = Inr [example_solution 5 3 0]"
  by (simp add: filter_unique_def completion_time_def example_solution_def Let_def
        sorted_set_reversed_def upt_conv_Cons)

lemma dominated_member_removed:
  "filter_dominated [example_solution 5 9 0, example_solution 7 10 0, example_solution 8 3 0]
     = Inr [example_solution 5 9 0, example_solution 8 3 0]"
  by (simp add: filter_dominated_def completion_time_def example_solution_def Let_def
        sorted_set_reversed_def upt_conv_Cons)

lemma tie_survives:
  "filter_dominated [example_solution 5 9 0, example_solution 7 9 0, example_solution 5 12 0]
     = Inr [example_solution 5 9 0, example_solution 7 9 0, example_solution 5 12 0]"
  by (simp add: filter_dominated_def completion_time_def example_solution_def Let_def
        sorted_set_reversed_def upt_conv_Cons)

end
